theory Spec2Isabelle
  imports Main "HOL-Library.Word"
begin

unbundle bit_operations_syntax

section \<open>libtorrent::buffer (include/libtorrent/buffer.hpp)\<close>

text \<open>
  A shallow embedding of the move-only byte buffer of \<^verbatim>\<open>buffer.hpp\<close> on a 64-bit
  platform: \<^verbatim>\<open>std::size_t\<close> and pointers are 64-bit words (\<^verbatim>\<open>nullptr\<close> is 0, pointer
  comparison is unsigned, pointer difference is a signed 64-bit \<^verbatim>\<open>ptrdiff_t\<close>), \<^verbatim>\<open>char\<close>
  is a byte and \<^verbatim>\<open>int\<close> a 32-bit word read as two's complement.
\<close>

subsection \<open>Machine types\<close>

type_synonym size_t = "64 word"
type_synonym ptr = "64 word"
type_synonym byte = "8 word"
type_synonym int32 = "32 word"

text \<open>The identity of a buffer object: what \<^verbatim>\<open>&b == this\<close> compares.\<close>

type_synonym obj = nat

text \<open>
  The build: which allocator introspection the preprocessor selects (\<^verbatim>\<open>__GLIBC__\<close>,
  \<^verbatim>\<open>_MSC_VER\<close>, \<^verbatim>\<open>TORRENT_BSD\<close>, or none of them) and whether \<^verbatim>\<open>BOOST_NO_EXCEPTIONS\<close> is
  defined.
\<close>

datatype platform = GLIBC | MSVC | BSD | Portable

record config =
  platform :: platform
  no_exceptions :: bool

text \<open>
  Every way an operation can end without a result. \<^verbatim>\<open>AssertionFailed\<close> is a failed
  \<^verbatim>\<open>TORRENT_ASSERT\<close>, \<^verbatim>\<open>BadAlloc\<close> the thrown \<^verbatim>\<open>std::bad_alloc\<close>, \<^verbatim>\<open>Terminated\<close> the call of
  \<^verbatim>\<open>std::terminate\<close>. \<^verbatim>\<open>InvalidFree\<close> is \<^verbatim>\<open>std::free\<close> of a pointer that is neither null nor
  a live allocation (a double free), and \<^verbatim>\<open>NoObject\<close> the use of a buffer object outside
  its lifetime; both are undefined behaviour in C++.
\<close>

datatype error = AssertionFailed | BadAlloc | Terminated | InvalidFree | NoObject

text \<open>
  Modelled from the spec: the macro \<^verbatim>\<open>TORRENT_ASSERT\<close> of \<^verbatim>\<open>libtorrent/assert.hpp\<close>, which is
  not among the sources. A precondition violation is a programmer error that the checked
  build must make fail loudly: when the condition is false the operation ends there,
  otherwise it goes on with the rest \<open>k\<close> of the function body.
\<close>

definition TORRENT_ASSERT :: "bool \<Rightarrow> error + 'a \<Rightarrow> error + 'a" where
  "TORRENT_ASSERT c k = (if c then k else Inl AssertionFailed)"

subsection \<open>The C heap: malloc, free, usable size, memcpy\<close>

text \<open>
  The allocator is the environment of the class. The heap records the live allocations
  (base address to usable size), the contents of memory, and counts the allocations made
  and released, as an allocation-tracking harness does.
\<close>

record heap =
  allocs :: "ptr \<rightharpoonup> size_t"
  mem :: "ptr \<Rightarrow> byte"
  mallocs :: nat
  frees :: nat

definition heap_init :: heap where
  "heap_init = \<lparr>allocs = Map.empty, mem = (\<lambda>_. 0), mallocs = 0, frees = 0\<rparr>"

text \<open>
  A block of \<open>len\<close> bytes can be placed at \<open>p\<close> when \<open>p\<close> is not null, is not the base of a
  block already live, and the block ends inside the address space.
\<close>

definition block_free :: "heap \<Rightarrow> ptr \<Rightarrow> nat \<Rightarrow> bool" where
  "block_free h p len = (p \<noteq> 0 \<and> allocs h p = None \<and> unat p + len < 2 ^ 64)"

text \<open>
  What the allocator does with one call of \<^verbatim>\<open>malloc\<close> is its own choice: \<^verbatim>\<open>None\<close> when it is
  out of memory, otherwise the address \<open>p\<close> where it places the block and the \<open>slack\<close>, the
  number of usable bytes it gives beyond the \<open>n\<close> requested (its size classes round
  requests up). \<^verbatim>\<open>malloc(n)\<close> returns null when it is out of memory or the block cannot be
  placed there; otherwise it returns \<open>p\<close>, and the block of \<open>n + slack\<close> usable bytes is live.
\<close>

type_synonym alloc_answer = "(ptr \<times> size_t) option"

definition malloc :: "alloc_answer \<Rightarrow> size_t \<Rightarrow> heap \<Rightarrow> ptr \<times> heap" where
  "malloc r n h =
     (case r of
        None \<Rightarrow> (0, h)
      | Some (p, slack) \<Rightarrow>
          if block_free h p (unat n + unat slack)
          then (p, h\<lparr>allocs := (allocs h)(p \<mapsto> n + slack), mallocs := Suc (mallocs h)\<rparr>)
          else (0, h))"

text \<open>\<^verbatim>\<open>malloc_usable_size\<close>, \<^verbatim>\<open>_msize\<close>, \<^verbatim>\<open>malloc_size\<close>: the usable size of a live block.\<close>

definition malloc_usable_size :: "heap \<Rightarrow> ptr \<Rightarrow> size_t" where
  "malloc_usable_size h p = (case allocs h p of None \<Rightarrow> 0 | Some u \<Rightarrow> u)"

definition free :: "ptr \<Rightarrow> heap \<Rightarrow> error + heap" where
  "free p h =
     (if p = 0 then Inr h
      else case allocs h p of
        None \<Rightarrow> Inl InvalidFree
      | Some u \<Rightarrow> Inr (h\<lparr>allocs := (allocs h)(p := None), frees := Suc (frees h)\<rparr>))"

text \<open>\<^verbatim>\<open>memcpy(dst, src, n)\<close>: the first \<open>n\<close> bytes of \<open>src\<close> are written from \<open>dst\<close> on.\<close>

definition memcpy :: "ptr \<Rightarrow> byte list \<Rightarrow> nat \<Rightarrow> heap \<Rightarrow> heap" where
  "memcpy dst src n h =
     h\<lparr>mem := (\<lambda>a. if unat (a - dst) < n then src ! unat (a - dst) else mem h a)\<rparr>"

subsection \<open>round_up8\<close>

definition round_up8 :: "size_t \<Rightarrow> size_t" where
  "round_up8 v = (v + 7) AND (NOT 7)"

subsection \<open>The class buffer\<close>

record buffer =
  m_begin :: ptr
  m_size :: size_t

text \<open>
  \<^verbatim>\<open>struct interval\<close>; its members \<^verbatim>\<open>begin\<close> and \<^verbatim>\<open>end\<close> are \<open>i_begin\<close> and \<open>i_end\<close> here.
\<close>

record interval =
  i_begin :: ptr
  i_end :: ptr

definition int32_max :: size_t where
  "int32_max = 0x7FFFFFFF"

text \<open>
  \<^verbatim>\<open>buffer(std::size_t size = 0)\<close>. The members start as \<^verbatim>\<open>nullptr\<close> and 0 (their default
  member initialisers); \<open>sz\<close> is the parameter \<^verbatim>\<open>size\<close> and \<open>r\<close> is the allocator's answer
  to the one call of \<^verbatim>\<open>malloc\<close>.
\<close>

definition buffer_ctor ::
  "config \<Rightarrow> size_t \<Rightarrow> alloc_answer \<Rightarrow> heap \<Rightarrow> error + (buffer \<times> heap)" where
  "buffer_ctor cfg sz r h =
     TORRENT_ASSERT (sz < int32_max)
       (if sz = 0 then Inr (\<lparr>m_begin = 0, m_size = 0\<rparr>, h)
        else
          let sz' = round_up8 sz;
              (p, h') = malloc r sz' h
          in if p = 0 then Inl (if no_exceptions cfg then Terminated else BadAlloc)
             else Inr (\<lparr>m_begin = p,
                        m_size = (case platform cfg of
                                    Portable \<Rightarrow> sz'
                                  | _ \<Rightarrow> malloc_usable_size h' p)\<rparr>, h'))"

text \<open>
  Modelled from the spec: the class \<^verbatim>\<open>aux::array_view<char const>\<close> of
  \<^verbatim>\<open>libtorrent/aux_/array_view.hpp\<close>, which is not among the sources. The initialiser is
  the sequence of source bytes it spans; its \<^verbatim>\<open>size()\<close> is the length of the sequence and
  its \<^verbatim>\<open>data()\<close> the bytes themselves.
\<close>

type_synonym array_view = "byte list"

text \<open>\<^verbatim>\<open>buffer(std::size_t size, aux::array_view<char const> initialize)\<close>.\<close>

definition buffer_ctor_init ::
  "config \<Rightarrow> size_t \<Rightarrow> array_view \<Rightarrow> alloc_answer \<Rightarrow> heap \<Rightarrow> error + (buffer \<times> heap)" where
  "buffer_ctor_init cfg sz initialize r h =
     (case buffer_ctor cfg sz r h of
        Inl e \<Rightarrow> Inl e
      | Inr (b, h') \<Rightarrow>
          TORRENT_ASSERT (length initialize \<le> unat sz)
            (if length initialize > 0
             then Inr (b, memcpy (m_begin b) initialize (min (length initialize) (unat sz)) h')
             else Inr (b, h')))"

text \<open>\<^verbatim>\<open>size()\<close> and \<^verbatim>\<open>empty()\<close>.\<close>

definition buffer_size :: "buffer \<Rightarrow> size_t" where
  "buffer_size b = m_size b"

definition buffer_empty :: "buffer \<Rightarrow> bool" where
  "buffer_empty b = (m_size b = 0)"

text \<open>\<^verbatim>\<open>operator[](std::size_t i)\<close> of the buffer.\<close>

definition buffer_at :: "buffer \<Rightarrow> size_t \<Rightarrow> heap \<Rightarrow> error + byte" where
  "buffer_at b i h =
     TORRENT_ASSERT (i < buffer_size b) (Inr (mem h (m_begin b + i)))"

text \<open>\<^verbatim>\<open>data()\<close>: the view of the whole buffer.\<close>

definition buffer_data :: "buffer \<Rightarrow> interval" where
  "buffer_data b = \<lparr>i_begin = m_begin b, i_end = m_begin b + m_size b\<rparr>"

text \<open>\<^verbatim>\<open>interval::operator[](int index)\<close>: the index is sign-extended to pointer width.\<close>

definition interval_at :: "interval \<Rightarrow> int32 \<Rightarrow> heap \<Rightarrow> error + byte" where
  "interval_at iv index h =
     TORRENT_ASSERT (i_begin iv + scast index < i_end iv)
       (Inr (mem h (i_begin iv + scast index)))"

text \<open>
  \<^verbatim>\<open>interval::left()\<close>: \<^verbatim>\<open>end - begin\<close> is a signed 64-bit difference, compared with the
  largest \<^verbatim>\<open>int\<close> and then narrowed to \<^verbatim>\<open>int\<close>.
\<close>

definition interval_left :: "interval \<Rightarrow> error + int32" where
  "interval_left iv =
     TORRENT_ASSERT (i_end iv \<ge> i_begin iv)
       (TORRENT_ASSERT (sint (i_end iv - i_begin iv) < 2147483647)
          (Inr (ucast (i_end iv - i_begin iv))))"

subsection \<open>Buffer objects and the operations that alias them\<close>

text \<open>
  The move operations and \<^verbatim>\<open>swap\<close> take a second buffer by reference, which may be
  the object itself. The program state is therefore the heap together with a store of the
  live buffer objects; an operation names the objects it works on, and every assignment
  of the source is one update of the store.
\<close>

record state =
  heap :: heap
  objs :: "obj \<rightharpoonup> buffer"

definition state_init :: state where
  "state_init = \<lparr>heap = heap_init, objs = Map.empty\<rparr>"

definition get_begin :: "obj \<Rightarrow> state \<Rightarrow> ptr" where
  "get_begin x st = (case objs st x of None \<Rightarrow> 0 | Some b \<Rightarrow> m_begin b)"

definition get_size :: "obj \<Rightarrow> state \<Rightarrow> size_t" where
  "get_size x st = (case objs st x of None \<Rightarrow> 0 | Some b \<Rightarrow> m_size b)"

definition set_begin :: "obj \<Rightarrow> ptr \<Rightarrow> state \<Rightarrow> state" where
  "set_begin x p st = st\<lparr>objs := (objs st)(x := map_option (\<lambda>b. b\<lparr>m_begin := p\<rparr>) (objs st x))\<rparr>"

definition set_size :: "obj \<Rightarrow> size_t \<Rightarrow> state \<Rightarrow> state" where
  "set_size x n st = st\<lparr>objs := (objs st)(x := map_option (\<lambda>b. b\<lparr>m_size := n\<rparr>) (objs st x))\<rparr>"

text \<open>The two sizing constructors, building the object \<open>this\<close>.\<close>

definition new_buffer :: "config \<Rightarrow> obj \<Rightarrow> size_t \<Rightarrow> alloc_answer \<Rightarrow> state \<Rightarrow> error + state" where
  "new_buffer cfg this sz r st =
     (if objs st this \<noteq> None then Inl NoObject
      else case buffer_ctor cfg sz r (heap st) of
        Inl e \<Rightarrow> Inl e
      | Inr (b, h') \<Rightarrow> Inr (st\<lparr>heap := h', objs := (objs st)(this \<mapsto> b)\<rparr>))"

definition new_buffer_init ::
  "config \<Rightarrow> obj \<Rightarrow> size_t \<Rightarrow> array_view \<Rightarrow> alloc_answer \<Rightarrow> state \<Rightarrow> error + state" where
  "new_buffer_init cfg this sz initialize r st =
     (if objs st this \<noteq> None then Inl NoObject
      else case buffer_ctor_init cfg sz initialize r (heap st) of
        Inl e \<Rightarrow> Inl e
      | Inr (b, h') \<Rightarrow> Inr (st\<lparr>heap := h', objs := (objs st)(this \<mapsto> b)\<rparr>))"

text \<open>\<^verbatim>\<open>buffer(buffer&& b)\<close>: the new object \<open>this\<close> takes the members of \<open>b\<close>.\<close>

definition buffer_move_ctor :: "obj \<Rightarrow> obj \<Rightarrow> state \<Rightarrow> error + state" where
  "buffer_move_ctor this b st =
     (if objs st this \<noteq> None \<or> objs st b = None then Inl NoObject
      else
        let st1 = st\<lparr>objs := (objs st)(this \<mapsto> \<lparr>m_begin = get_begin b st, m_size = get_size b st\<rparr>)\<rparr>;
            st2 = set_begin b 0 st1;
            st3 = set_size b 0 st2
        in Inr st3)"

text \<open>\<^verbatim>\<open>buffer& operator=(buffer&& b)\<close>.\<close>

definition buffer_move_assign :: "obj \<Rightarrow> obj \<Rightarrow> state \<Rightarrow> error + state" where
  "buffer_move_assign this b st =
     (if objs st this = None \<or> objs st b = None then Inl NoObject
      else if b = this then Inr st
      else case free (get_begin this st) (heap st) of
        Inl e \<Rightarrow> Inl e
      | Inr h' \<Rightarrow>
          let st1 = st\<lparr>heap := h'\<rparr>;
              st2 = set_begin this (get_begin b st1) st1;
              st3 = set_size this (get_size b st2) st2;
              st4 = set_begin b 0 st3;
              st5 = set_size b 0 st4
          in Inr st5)"

text \<open>\<^verbatim>\<open>~buffer()\<close>: the allocation is released and the object's lifetime ends.\<close>

definition buffer_dtor :: "obj \<Rightarrow> state \<Rightarrow> error + state" where
  "buffer_dtor this st =
     (if objs st this = None then Inl NoObject
      else case free (get_begin this st) (heap st) of
        Inl e \<Rightarrow> Inl e
      | Inr h' \<Rightarrow> Inr (st\<lparr>heap := h', objs := (objs st)(this := None)\<rparr>))"

text \<open>\<^verbatim>\<open>void swap(buffer& b)\<close>: two calls of \<^verbatim>\<open>std::swap\<close>, each through a temporary.\<close>

definition buffer_swap :: "obj \<Rightarrow> obj \<Rightarrow> state \<Rightarrow> error + state" where
  "buffer_swap this b st =
     (if objs st this = None \<or> objs st b = None then Inl NoObject
      else
        let tmp = get_begin this st;
            st1 = set_begin this (get_begin b st) st;
            st2 = set_begin b tmp st1;
            tmp' = get_size this st2;
            st3 = set_size this (get_size b st2) st2;
            st4 = set_size b tmp' st3
        in Inr st4)"

subsection \<open>Programs over buffers\<close>

text \<open>
  A client of the class is a sequence of these operations. A program stops at the first
  operation that fails.
\<close>

datatype cmd =
    New obj size_t alloc_answer
  | NewInit obj size_t array_view alloc_answer
  | MoveNew obj obj
  | MoveAssign obj obj
  | Swap obj obj
  | Delete obj

fun exec :: "config \<Rightarrow> cmd \<Rightarrow> state \<Rightarrow> error + state" where
  "exec cfg (New this sz r) st = new_buffer cfg this sz r st"
| "exec cfg (NewInit this sz initialize r) st = new_buffer_init cfg this sz initialize r st"
| "exec cfg (MoveNew this b) st = buffer_move_ctor this b st"
| "exec cfg (MoveAssign this b) st = buffer_move_assign this b st"
| "exec cfg (Swap this b) st = buffer_swap this b st"
| "exec cfg (Delete this) st = buffer_dtor this st"

fun run :: "config \<Rightarrow> cmd list \<Rightarrow> state \<Rightarrow> error + state" where
  "run cfg [] st = Inr st"
| "run cfg (c # cs) st = (case exec cfg c st of Inl e \<Rightarrow> Inl e | Inr st' \<Rightarrow> run cfg cs st')"

subsection \<open>The invariant of the data model\<close>

text \<open>
  A buffer is valid on a heap when its size is 0 exactly if its pointer is null, and a
  non-null pointer is the base of a live allocation of at least \<open>m_size\<close> usable bytes
  that lies inside the address space.
\<close>

definition buffer_valid :: "heap \<Rightarrow> buffer \<Rightarrow> bool" where
  "buffer_valid h b =
     ((m_size b = 0) = (m_begin b = 0) \<and>
      (m_begin b = 0 \<or>
        (case allocs h (m_begin b) of
           None \<Rightarrow> False
         | Some u \<Rightarrow> m_size b \<le> u \<and> unat (m_begin b) + unat u < 2 ^ 64)))"

text \<open>
  The heap's counters balance: the allocations made are those released plus those still
  live; and null is never a live allocation.
\<close>

definition heap_balanced :: "heap \<Rightarrow> bool" where
  "heap_balanced h =
     (finite (dom (allocs h)) \<and> allocs h 0 = None \<and>
      mallocs h = frees h + card (dom (allocs h)))"

text \<open>Every live buffer object is valid on the heap.\<close>

definition owners_valid :: "state \<Rightarrow> bool" where
  "owners_valid st = (\<forall>x b. objs st x = Some b \<longrightarrow> buffer_valid (heap st) b)"

text \<open>No allocation has two owners.\<close>

definition sole_owner :: "state \<Rightarrow> bool" where
  "sole_owner st =
     (\<forall>x y b c. objs st x = Some b \<longrightarrow> objs st y = Some c \<longrightarrow>
        m_begin b \<noteq> 0 \<longrightarrow> m_begin b = m_begin c \<longrightarrow> x = y)"

text \<open>Every live allocation has an owner.\<close>

definition no_leak :: "state \<Rightarrow> bool" where
  "no_leak st =
     (\<forall>p u. allocs (heap st) p = Some u \<longrightarrow> (\<exists>x b. objs st x = Some b \<and> m_begin b = p))"

definition state_inv :: "state \<Rightarrow> bool" where
  "state_inv st = (heap_balanced (heap st) \<and> owners_valid st \<and> sole_owner st \<and> no_leak st)"

section \<open>Rounding and the sizing constructor\<close>

lemma TORRENT_ASSERT_if [simp]: "TORRENT_ASSERT c k = (if c then k else Inl AssertionFailed)"
  by (simp add: TORRENT_ASSERT_def)

subsection \<open>round_up8 clears the low three bits\<close>

lemma and_not_mask3: "(x :: 64 word) AND NOT (mask 3) = push_bit 3 (drop_bit 3 x)"
  apply (rule bit_eqI)
  apply (simp only: bit_and_iff bit_not_iff bit_mask_iff bit_push_bit_iff bit_drop_bit_eq)
  apply auto
  done

lemma and_not7: "(x :: 64 word) AND NOT 7 = push_bit 3 (drop_bit 3 x)"
proof -
  have "(NOT 7 :: 64 word) = NOT (mask 3)"
    by (simp add: mask_eq_exp_minus_1)
  then show ?thesis
    by (simp only: and_not_mask3)
qed

lemma unat_and_not7: "unat ((x :: 64 word) AND NOT 7) = (unat x div 8) * 8"
proof -
  have le: "(unat x div 8) * 8 \<le> unat x" by simp
  have "unat x < 2 ^ 64" using unsigned_less [of x] by simp
  with le have lt: "(unat x div 8) * 8 < 2 ^ 64" by linarith
  have "unat (push_bit 3 (drop_bit 3 x)) = take_bit 64 (push_bit 3 (drop_bit 3 (unat x)))"
    by (simp add: unsigned_push_bit_eq unat_drop_bit_eq)
  also have "\<dots> = take_bit 64 ((unat x div 8) * 8)"
    by (simp add: push_bit_eq_mult drop_bit_eq_div)
  also have "\<dots> = (unat x div 8) * 8"
    using lt by (simp add: take_bit_nat_eq_self)
  finally show ?thesis by (simp only: and_not7)
qed

lemma unat_round_up8:
  assumes "unat v + 7 < 2 ^ 64"
  shows "unat (round_up8 v) = ((unat v + 7) div 8) * 8"
proof -
  have "unat (v + 7) = unat v + 7"
    using assms by (simp add: unat_word_ariths)
  then show ?thesis
    by (simp only: round_up8_def unat_and_not7)
qed

lemma unat_int32_max: "unat int32_max = 2147483647"
  by (simp add: int32_max_def)

lemma pre_unat: "sz < int32_max \<Longrightarrow> unat sz < 2147483647"
  by (simp add: word_less_nat_alt unat_int32_max)

lemma round_up8_pre:
  assumes "sz < int32_max"
  shows "unat (round_up8 sz) = ((unat sz + 7) div 8) * 8"
  using pre_unat [OF assms] by (intro unat_round_up8) simp

lemma round_up8_ge: "sz < int32_max \<Longrightarrow> sz \<le> round_up8 sz"
  by (simp add: word_le_nat_alt round_up8_pre)

lemma round_up8_nonzero: "sz < int32_max \<Longrightarrow> sz \<noteq> 0 \<Longrightarrow> round_up8 sz \<noteq> 0"
  using round_up8_ge [of sz] by auto

subsection \<open>The three ways the sizing constructor ends\<close>

lemma round_up8_le: "sz < int32_max \<Longrightarrow> unat (round_up8 sz) \<le> 2 ^ 31"
  using pre_unat [of sz] by (simp add: round_up8_pre)

lemma block_free_mono: "block_free h p m \<Longrightarrow> n \<le> m \<Longrightarrow> block_free h p n"
  by (simp add: block_free_def)

lemma block_free_room:
  assumes "sz < int32_max" and "block_free h p (2 ^ 31 + unat slack)"
  shows "block_free h p (unat (round_up8 sz) + unat slack)"
  using assms(2) by (rule block_free_mono) (use round_up8_le [OF assms(1)] in simp)

lemma unat_usable:
  assumes "block_free h p (unat n + unat slack)"
  shows "unat (n + slack :: size_t) = unat n + unat slack"
proof -
  have "unat n + unat slack < 2 ^ 64" using assms by (simp add: block_free_def)
  then show ?thesis by (simp add: unat_word_ariths)
qed

lemma buffer_ctor_Some:
  assumes "sz < int32_max" "sz \<noteq> 0" "block_free h p (unat (round_up8 sz) + unat slack)"
  shows "buffer_ctor cfg sz (Some (p, slack)) h =
    Inr (\<lparr>m_begin = p,
          m_size = (if platform cfg = Portable then round_up8 sz else round_up8 sz + slack)\<rparr>,
         h\<lparr>allocs := (allocs h)(p \<mapsto> round_up8 sz + slack), mallocs := Suc (mallocs h)\<rparr>)"
proof -
  have "p \<noteq> 0" using assms(3) by (simp add: block_free_def)
  with assms show ?thesis
    by (cases "platform cfg")
      (simp_all add: buffer_ctor_def malloc_def malloc_usable_size_def Let_def)
qed

lemma buffer_ctor_None:
  assumes "sz < int32_max" "sz \<noteq> 0"
  shows "buffer_ctor cfg sz None h = Inl (if no_exceptions cfg then Terminated else BadAlloc)"
  using assms by (simp add: buffer_ctor_def malloc_def)

lemma buffer_ctor_rejected:
  assumes "sz < int32_max" "sz \<noteq> 0" "\<not> block_free h p (unat (round_up8 sz) + unat slack)"
  shows "buffer_ctor cfg sz (Some (p, slack)) h =
    Inl (if no_exceptions cfg then Terminated else BadAlloc)"
  using assms by (simp add: buffer_ctor_def malloc_def)

lemma buffer_ctor_zero: "buffer_ctor cfg 0 r h = Inr (\<lparr>m_begin = 0, m_size = 0\<rparr>, h)"
  by (simp add: buffer_ctor_def int32_max_def)

text \<open>What a successful construction with a non-zero size was.\<close>

lemma buffer_ctor_Inr:
  assumes res: "buffer_ctor cfg sz r h = Inr (b, h')" and nz: "sz \<noteq> 0"
  shows "sz < int32_max \<and> (\<exists>p slack. r = Some (p, slack)
      \<and> block_free h p (unat (round_up8 sz) + unat slack)
      \<and> b = \<lparr>m_begin = p,
              m_size = (if platform cfg = Portable then round_up8 sz else round_up8 sz + slack)\<rparr>
      \<and> h' = h\<lparr>allocs := (allocs h)(p \<mapsto> round_up8 sz + slack), mallocs := Suc (mallocs h)\<rparr>)"
proof -
  have pre: "sz < int32_max" using res by (auto simp: buffer_ctor_def split: if_splits)
  from res pre nz obtain p slack where r: "r = Some (p, slack)"
    by (cases r) (auto simp: buffer_ctor_None)
  have fits: "block_free h p (unat (round_up8 sz) + unat slack)"
  proof (rule ccontr)
    assume "\<not> block_free h p (unat (round_up8 sz) + unat slack)"
    from buffer_ctor_rejected [OF pre nz this] res r show False by simp
  qed
  from res r show ?thesis
    using pre fits by (auto simp: buffer_ctor_Some [OF pre nz fits])
qed

lemma usable_ge:
  assumes "block_free h p (unat n + unat slack)"
  shows "(n :: size_t) \<le> n + slack"
  by (simp add: word_le_nat_alt unat_usable [OF assms])

lemma buffer_ctor_valid:
  assumes res: "buffer_ctor cfg sz r h = Inr (b, h')"
  shows "buffer_valid h' b"
proof (cases "sz = 0")
  case True
  with res show ?thesis by (auto simp: buffer_ctor_zero buffer_valid_def)
next
  case nz: False
  from buffer_ctor_Inr [OF res nz] obtain p slack where pre: "sz < int32_max"
    and fits: "block_free h p (unat (round_up8 sz) + unat slack)"
    and b: "b = \<lparr>m_begin = p,
              m_size = (if platform cfg = Portable then round_up8 sz else round_up8 sz + slack)\<rparr>"
    and h': "h' = h\<lparr>allocs := (allocs h)(p \<mapsto> round_up8 sz + slack), mallocs := Suc (mallocs h)\<rparr>"
    by blast
  have p: "p \<noteq> 0" using fits by (simp add: block_free_def)
  have le: "round_up8 sz \<le> round_up8 sz + slack" using fits by (rule usable_ge)
  have top: "unat p + unat (round_up8 sz + slack) < 2 ^ 64"
    using fits by (simp add: unat_usable [OF fits]) (simp add: block_free_def)
  have r0: "round_up8 sz \<noteq> 0" by (rule round_up8_nonzero [OF pre nz])
  have u0: "round_up8 sz + slack \<noteq> 0" using le r0 by auto
  show ?thesis using p le top r0 u0 by (simp add: b h' buffer_valid_def)
qed

subsection \<open>Reading back what memcpy wrote\<close>

lemma unat_of_nat64: "i < 2 ^ 64 \<Longrightarrow> unat (of_nat i :: 64 word) = i"
  by (rule of_nat_inverse) simp_all

lemma memcpy_read:
  assumes "i < n" "i < 2 ^ 64"
  shows "mem (memcpy p src n h) (p + of_nat i) = src ! i"
  using assms by (simp add: memcpy_def unat_of_nat64)

section \<open>Ownership\<close>

lemma buffer_update_all:
  "(x :: buffer)\<lparr>m_begin := p, m_size := n\<rparr> = \<lparr>m_begin = p, m_size = n\<rparr>"
  by (cases x) simp

subsection \<open>free\<close>

lemma free_null: "free 0 h = Inr h"
  by (simp add: free_def)

lemma free_live:
  assumes "p \<noteq> 0" "allocs h p = Some u"
  shows "free p h = Inr (h\<lparr>allocs := (allocs h)(p := None), frees := Suc (frees h)\<rparr>)"
  using assms by (simp add: free_def)

lemma free_valid:
  assumes "buffer_valid h b"
  shows "free (m_begin b) h =
    Inr (if m_begin b = 0 then h
         else h\<lparr>allocs := (allocs h)(m_begin b := None), frees := Suc (frees h)\<rparr>)"
  using assms by (auto simp: buffer_valid_def free_def split: option.splits)

subsection \<open>The operations on the store, in closed form\<close>

lemma buffer_move_ctor_eq:
  assumes "objs st this = None" "objs st b = Some x"
  shows "buffer_move_ctor this b st =
    Inr (st\<lparr>objs := (objs st)(this \<mapsto> \<lparr>m_begin = m_begin x, m_size = m_size x\<rparr>,
                                 b \<mapsto> \<lparr>m_begin = 0, m_size = 0\<rparr>)\<rparr>)"
proof -
  have ne: "this \<noteq> b" using assms by auto
  show ?thesis
    using assms ne
    by (simp add: buffer_move_ctor_def get_begin_def get_size_def set_begin_def set_size_def
        Let_def fun_upd_twist buffer_update_all)
qed

lemma buffer_move_assign_eq:
  assumes "objs st this = Some t" "objs st b = Some x" "b \<noteq> this"
    and "free (m_begin t) (heap st) = Inr h'"
  shows "buffer_move_assign this b st =
    Inr (st\<lparr>heap := h',
            objs := (objs st)(this \<mapsto> \<lparr>m_begin = m_begin x, m_size = m_size x\<rparr>,
                              b \<mapsto> \<lparr>m_begin = 0, m_size = 0\<rparr>)\<rparr>)"
  using assms
  by (simp add: buffer_move_assign_def get_begin_def get_size_def set_begin_def set_size_def
      Let_def fun_upd_twist buffer_update_all)

lemma buffer_move_assign_self:
  assumes "objs st b = Some x"
  shows "buffer_move_assign b b st = Inr st"
  using assms by (simp add: buffer_move_assign_def)

lemma buffer_swap_eq:
  assumes "objs st this = Some t" "objs st b = Some x"
  shows "buffer_swap this b st =
    Inr (st\<lparr>objs := (objs st)(this \<mapsto> \<lparr>m_begin = m_begin x, m_size = m_size x\<rparr>,
                              b \<mapsto> \<lparr>m_begin = m_begin t, m_size = m_size t\<rparr>)\<rparr>)"
proof (cases "b = this")
  case True
  with assms show ?thesis
    by (simp add: buffer_swap_def get_begin_def get_size_def set_begin_def set_size_def Let_def
        buffer_update_all)
next
  case False
  with assms show ?thesis
    by (simp add: buffer_swap_def get_begin_def get_size_def set_begin_def set_size_def
        Let_def fun_upd_twist buffer_update_all)
qed

lemma buffer_dtor_eq:
  assumes "objs st this = Some t" "free (m_begin t) (heap st) = Inr h'"
  shows "buffer_dtor this st = Inr (st\<lparr>heap := h', objs := (objs st)(this := None)\<rparr>)"
  using assms by (simp add: buffer_dtor_def get_begin_def)


subsection \<open>Establishing and preserving the invariant\<close>

lemma state_inv_init: "state_inv state_init"
  by (simp add: state_inv_def state_init_def heap_init_def heap_balanced_def owners_valid_def
      sole_owner_def no_leak_def)

lemma buffer_valid_mem [simp]: "buffer_valid (h\<lparr>mem := m\<rparr>) b = buffer_valid h b"
  by (simp add: buffer_valid_def)

lemma buffer_valid_null [simp]: "buffer_valid h \<lparr>m_begin = 0, m_size = 0\<rparr>"
  by (simp add: buffer_valid_def)

lemma buffer_valid_live:
  "buffer_valid h b \<Longrightarrow> m_begin b \<noteq> 0 \<Longrightarrow> \<exists>u. allocs h (m_begin b) = Some u"
  by (auto simp: buffer_valid_def split: option.splits)

text \<open>Adding an object that owns nothing, or a fresh allocation.\<close>

lemma inv_add_null:
  assumes inv: "state_inv st" and fresh: "objs st this = None"
  shows "state_inv (st\<lparr>objs := (objs st)(this \<mapsto> \<lparr>m_begin = 0, m_size = 0\<rparr>)\<rparr>)"
proof -
  let ?st = "st\<lparr>objs := (objs st)(this \<mapsto> \<lparr>m_begin = 0, m_size = 0\<rparr>)\<rparr>"
  have "heap_balanced (heap ?st)" using inv by (simp add: state_inv_def)
  moreover have "owners_valid ?st" using inv by (simp add: state_inv_def owners_valid_def)
  moreover have "sole_owner ?st"
    using inv fresh unfolding state_inv_def sole_owner_def
    by (auto split: if_splits)
  moreover have "no_leak ?st"
    unfolding no_leak_def
  proof (intro allI impI)
    fix q v assume "allocs (heap ?st) q = Some v"
    then have "allocs (heap st) q = Some v" by simp
    with inv obtain x b where xb: "objs st x = Some b" "m_begin b = q"
      unfolding state_inv_def no_leak_def by blast
    with fresh have "x \<noteq> this" by auto
    with xb show "\<exists>x b. objs ?st x = Some b \<and> m_begin b = q"
      by (intro exI [of _ x]) simp
  qed
  ultimately show ?thesis by (simp add: state_inv_def)
qed

lemma inv_add_alloc:
  assumes inv: "state_inv st" and fresh: "objs st this = None"
    and p: "p \<noteq> 0" and new: "allocs (heap st) p = None"
    and n: "n \<noteq> 0" "n \<le> u" and top: "unat p + unat u < 2 ^ 64"
  shows "state_inv (st\<lparr>heap := (heap st)\<lparr>allocs := (allocs (heap st))(p \<mapsto> u),
                                          mallocs := Suc (mallocs (heap st)), mem := m\<rparr>,
                         objs := (objs st)(this \<mapsto> \<lparr>m_begin = p, m_size = n\<rparr>)\<rparr>)"
proof -
  let ?h = "(heap st)\<lparr>allocs := (allocs (heap st))(p \<mapsto> u),
                      mallocs := Suc (mallocs (heap st)), mem := m\<rparr>"
  let ?st = "st\<lparr>heap := ?h, objs := (objs st)(this \<mapsto> \<lparr>m_begin = p, m_size = n\<rparr>)\<rparr>"
  from inv have bal: "heap_balanced (heap st)" and val: "owners_valid st"
    and sole: "sole_owner st" and leak: "no_leak st"
    by (simp_all add: state_inv_def)
  have notin: "p \<notin> dom (allocs (heap st))" using new by (simp add: domIff)
  have "heap_balanced ?h"
    using bal p notin by (simp add: heap_balanced_def)
  moreover have "owners_valid ?st"
    unfolding owners_valid_def
  proof (intro allI impI)
    fix x b assume xb: "objs ?st x = Some b"
    show "buffer_valid (heap ?st) b"
    proof (cases "x = this")
      case True
      with xb p n top show ?thesis by (auto simp: buffer_valid_def)
    next
      case False
      with xb have old: "objs st x = Some b" by simp
      with val have v: "buffer_valid (heap st) b" by (simp add: owners_valid_def)
      have "m_begin b \<noteq> p" using buffer_valid_live [OF v] new p by auto
      then show ?thesis using v by (simp add: buffer_valid_def)
    qed
  qed
  moreover have "sole_owner ?st"
    unfolding sole_owner_def
  proof (intro allI impI)
    fix x y b c
    assume xb: "objs ?st x = Some b" and yc: "objs ?st y = Some c"
      and nz: "m_begin b \<noteq> 0" and eq: "m_begin b = m_begin c"
    have other: "m_begin d \<noteq> p" if "z \<noteq> this" "objs ?st z = Some d" for z d
    proof -
      from that have "objs st z = Some d" by simp
      with val have v: "buffer_valid (heap st) d" by (simp add: owners_valid_def)
      show ?thesis using buffer_valid_live [OF v] new p by auto
    qed
    show "x = y"
    proof (cases "x = this")
      case True
      with xb have bp: "m_begin b = p" by auto
      show ?thesis
      proof (rule ccontr)
        assume "x \<noteq> y"
        with True have "y \<noteq> this" by simp
        from other [OF this yc] bp eq show False by simp
      qed
    next
      case xf: False
      show ?thesis
      proof (cases "y = this")
        case True
        with yc have "m_begin c = p" by auto
        with eq other [OF xf xb] show ?thesis by simp
      next
        case False
        with xf xb yc nz eq sole show ?thesis
          unfolding sole_owner_def by (simp split: if_splits)
      qed
    qed
  qed
  moreover have "no_leak ?st"
    unfolding no_leak_def
  proof (intro allI impI)
    fix q v assume q: "allocs (heap ?st) q = Some v"
    show "\<exists>x b. objs ?st x = Some b \<and> m_begin b = q"
    proof (cases "q = p")
      case True
      then show ?thesis by (intro exI [of _ this]) simp
    next
      case False
      with q have "allocs (heap st) q = Some v" by simp
      with leak obtain x b where xb: "objs st x = Some b" "m_begin b = q"
        unfolding no_leak_def by blast
      with fresh have "x \<noteq> this" by auto
      with xb show ?thesis by (intro exI [of _ x]) simp
    qed
  qed
  ultimately show ?thesis by (simp add: state_inv_def)
qed


lemma buffer_eta: "\<lparr>m_begin = m_begin x, m_size = m_size x\<rparr> = (x :: buffer)"
  by (cases x) simp

lemma buffer_null_iff: "buffer_valid h t \<Longrightarrow> m_begin t = 0 \<Longrightarrow> t = \<lparr>m_begin = 0, m_size = 0\<rparr>"
  by (cases t) (simp add: buffer_valid_def)

text \<open>Releasing what an object owns leaves it as an owner of nothing.\<close>

lemma inv_release:
  assumes inv: "state_inv st" and obj: "objs st this = Some t"
  shows "\<exists>h'. free (m_begin t) (heap st) = Inr h'
           \<and> h' = (if m_begin t = 0 then heap st
                   else (heap st)\<lparr>allocs := (allocs (heap st))(m_begin t := None),
                                   frees := Suc (frees (heap st))\<rparr>)
           \<and> state_inv (st\<lparr>heap := h', objs := (objs st)(this \<mapsto> \<lparr>m_begin = 0, m_size = 0\<rparr>)\<rparr>)"
proof -
  from inv have bal: "heap_balanced (heap st)" and val: "owners_valid st"
    and sole: "sole_owner st" and leak: "no_leak st"
    by (simp_all add: state_inv_def)
  from val obj have vt: "buffer_valid (heap st) t" by (simp add: owners_valid_def)
  show ?thesis
  proof (cases "m_begin t = 0")
    case True
    with vt have "t = \<lparr>m_begin = 0, m_size = 0\<rparr>" by (intro buffer_null_iff)
    with obj have "(objs st)(this \<mapsto> \<lparr>m_begin = 0, m_size = 0\<rparr>) = objs st"
      by (simp add: fun_upd_idem)
    with True inv show ?thesis by (simp add: free_null)
  next
    case nz: False
    let ?p = "m_begin t"
    from buffer_valid_live [OF vt nz] obtain u where live: "allocs (heap st) ?p = Some u" ..
    let ?h = "(heap st)\<lparr>allocs := (allocs (heap st))(?p := None), frees := Suc (frees (heap st))\<rparr>"
    let ?st = "st\<lparr>heap := ?h, objs := (objs st)(this \<mapsto> \<lparr>m_begin = 0, m_size = 0\<rparr>)\<rparr>"
    have fr: "free ?p (heap st) = Inr ?h" using nz live by (rule free_live)
    have other: "m_begin b \<noteq> ?p" if "x \<noteq> this" "objs st x = Some b" for x b
    proof
      assume "m_begin b = ?p"
      with sole obj that(2) nz have "this = x"
        unfolding sole_owner_def by metis
      with that(1) show False by simp
    qed
    have "heap_balanced ?h"
    proof -
      have fin: "finite (dom (allocs (heap st)))" and cnt: "mallocs (heap st) = frees (heap st) + card (dom (allocs (heap st)))"
        and null: "allocs (heap st) 0 = None"
        using bal by (simp_all add: heap_balanced_def)
      have mem: "?p \<in> dom (allocs (heap st))" using live by (simp add: domIff)
      have "card (dom (allocs (heap st)) - {?p}) = card (dom (allocs (heap st))) - 1"
        using fin mem by simp
      moreover have "0 < card (dom (allocs (heap st)))"
        using fin mem by (auto simp: card_gt_0_iff)
      ultimately show ?thesis using fin cnt null by (simp add: heap_balanced_def)
    qed
    moreover have "owners_valid ?st"
      unfolding owners_valid_def
    proof (intro allI impI)
      fix x b assume xb: "objs ?st x = Some b"
      show "buffer_valid (heap ?st) b"
      proof (cases "x = this")
        case True
        with xb show ?thesis by auto
      next
        case False
        with xb have old: "objs st x = Some b" by simp
        with val have v: "buffer_valid (heap st) b" by (simp add: owners_valid_def)
        from other [OF False old] v show ?thesis by (simp add: buffer_valid_def)
      qed
    qed
    moreover have "sole_owner ?st"
      unfolding sole_owner_def
    proof (intro allI impI)
      fix x y b c
      assume xb: "objs ?st x = Some b" and yc: "objs ?st y = Some c"
        and bz: "m_begin b \<noteq> 0" and eq: "m_begin b = m_begin c"
      from xb bz have x: "x \<noteq> this" "objs st x = Some b" by (auto split: if_splits)
      from yc bz eq have y: "y \<noteq> this" "objs st y = Some c" by (auto split: if_splits)
      from sole x(2) y(2) bz eq show "x = y" unfolding sole_owner_def by blast
    qed
    moreover have "no_leak ?st"
      unfolding no_leak_def
    proof (intro allI impI)
      fix q v assume q: "allocs (heap ?st) q = Some v"
      then have qp: "q \<noteq> ?p" and "allocs (heap st) q = Some v" by (auto split: if_splits)
      with leak obtain x b where xb: "objs st x = Some b" "m_begin b = q"
        unfolding no_leak_def by blast
      with obj qp have "x \<noteq> this" by auto
      with xb show "\<exists>x b. objs ?st x = Some b \<and> m_begin b = q"
        by (intro exI [of _ x]) simp
    qed
    ultimately have "state_inv ?st" by (simp add: state_inv_def)
    with fr nz show ?thesis by simp
  qed
qed

text \<open>An object that owns nothing can end its lifetime.\<close>

lemma inv_remove_null:
  assumes inv: "state_inv st" and obj: "objs st this = Some \<lparr>m_begin = 0, m_size = 0\<rparr>"
  shows "state_inv (st\<lparr>objs := (objs st)(this := None)\<rparr>)"
proof -
  let ?st = "st\<lparr>objs := (objs st)(this := None)\<rparr>"
  from inv have bal: "heap_balanced (heap st)" and val: "owners_valid st"
    and sole: "sole_owner st" and leak: "no_leak st"
    by (simp_all add: state_inv_def)
  have "heap_balanced (heap ?st)" using bal by simp
  moreover have "owners_valid ?st"
    using val unfolding owners_valid_def by (simp split: if_splits)
  moreover have "sole_owner ?st"
    using sole unfolding sole_owner_def by (simp split: if_splits)
  moreover have "no_leak ?st"
    unfolding no_leak_def
  proof (intro allI impI)
    fix q v assume "allocs (heap ?st) q = Some v"
    then have q: "allocs (heap st) q = Some v" by simp
    with leak obtain x b where xb: "objs st x = Some b" "m_begin b = q"
      unfolding no_leak_def by blast
    have "q \<noteq> 0" using q bal by (auto simp: heap_balanced_def)
    with xb obj have "x \<noteq> this" by auto
    with xb show "\<exists>x b. objs ?st x = Some b \<and> m_begin b = q"
      by (intro exI [of _ x]) simp
  qed
  ultimately show ?thesis by (simp add: state_inv_def)
qed


text \<open>Two objects exchanging what they own.\<close>

lemma inv_exchange:
  assumes inv: "state_inv st" and a: "objs st a = Some t" and b: "objs st b = Some x"
  shows "state_inv (st\<lparr>objs := (objs st)(a \<mapsto> x, b \<mapsto> t)\<rparr>)"
proof -
  let ?st = "st\<lparr>objs := (objs st)(a \<mapsto> x, b \<mapsto> t)\<rparr>"
  define f where "f z = (if z = a then b else if z = b then a else z)" for z
  have ff: "f (f z) = z" for z by (simp add: f_def)
  have key: "objs ?st z = objs st (f z)" for z
    using a b by (auto simp: f_def)
  from inv have bal: "heap_balanced (heap st)" and val: "owners_valid st"
    and sole: "sole_owner st" and leak: "no_leak st"
    by (simp_all add: state_inv_def)
  have "heap_balanced (heap ?st)" using bal by simp
  moreover have "owners_valid ?st"
    unfolding owners_valid_def
  proof (intro allI impI)
    fix z c assume "objs ?st z = Some c"
    then have "objs st (f z) = Some c" by (simp only: key)
    with val show "buffer_valid (heap ?st) c" by (simp add: owners_valid_def)
  qed
  moreover have "sole_owner ?st"
    unfolding sole_owner_def
  proof (intro allI impI)
    fix y z c d
    assume "objs ?st y = Some c" and "objs ?st z = Some d"
      and nz: "m_begin c \<noteq> 0" and eq: "m_begin c = m_begin d"
    then have "objs st (f y) = Some c" and "objs st (f z) = Some d" by (simp_all only: key)
    with sole nz eq have "f y = f z" unfolding sole_owner_def by blast
    then have "f (f y) = f (f z)" by simp
    then show "y = z" by (simp only: ff)
  qed
  moreover have "no_leak ?st"
    unfolding no_leak_def
  proof (intro allI impI)
    fix q v assume "allocs (heap ?st) q = Some v"
    then have "allocs (heap st) q = Some v" by simp
    with leak obtain z c where zc: "objs st z = Some c" "m_begin c = q"
      unfolding no_leak_def by blast
    have "objs ?st (f z) = Some c" using zc(1) by (simp only: key ff)
    with zc(2) show "\<exists>z c. objs ?st z = Some c \<and> m_begin c = q" by blast
  qed
  ultimately show ?thesis by (simp add: state_inv_def)
qed

subsection \<open>Each operation preserves the invariant\<close>

lemma new_buffer_inv:
  assumes inv: "state_inv st" and res: "new_buffer cfg this sz r st = Inr st'"
  shows "state_inv st'"
proof -
  from res have fresh: "objs st this = None"
    by (auto simp: new_buffer_def split: if_splits)
  from res fresh obtain b h' where ctor: "buffer_ctor cfg sz r (heap st) = Inr (b, h')"
    and st': "st' = st\<lparr>heap := h', objs := (objs st)(this \<mapsto> b)\<rparr>"
    by (auto simp: new_buffer_def split: sum.splits)
  show ?thesis
  proof (cases "sz = 0")
    case True
    with ctor st' have "st' = st\<lparr>objs := (objs st)(this \<mapsto> \<lparr>m_begin = 0, m_size = 0\<rparr>)\<rparr>"
      by (auto simp: buffer_ctor_zero)
    with inv_add_null [OF inv fresh] show ?thesis by simp
  next
    case nz: False
    let ?u = "\<lambda>slack. round_up8 sz + slack"
    let ?n = "\<lambda>slack. if platform cfg = Portable then round_up8 sz else ?u slack"
    from buffer_ctor_Inr [OF ctor nz] obtain p slack where pre: "sz < int32_max"
      and fits: "block_free (heap st) p (unat (round_up8 sz) + unat slack)"
      and b: "b = \<lparr>m_begin = p, m_size = ?n slack\<rparr>"
      and h': "h' = (heap st)\<lparr>allocs := (allocs (heap st))(p \<mapsto> ?u slack),
                              mallocs := Suc (mallocs (heap st))\<rparr>"
      by blast
    have p: "p \<noteq> 0" and new: "allocs (heap st) p = None"
      using fits by (simp_all add: block_free_def)
    have le: "round_up8 sz \<le> ?u slack" using fits by (rule usable_ge)
    have top: "unat p + unat (?u slack) < 2 ^ 64"
      using fits by (simp add: unat_usable [OF fits]) (simp add: block_free_def)
    have n0: "?n slack \<noteq> 0" using round_up8_nonzero [OF pre nz] le by auto
    have nu: "?n slack \<le> ?u slack" using le by simp
    from st' b h' inv_add_alloc [OF inv fresh p new n0 nu top, of "mem (heap st)"]
    show ?thesis by simp
  qed
qed

lemma state_inv_mem:
  assumes "state_inv st" and "heap st' = (heap st)\<lparr>mem := m\<rparr>" and "objs st' = objs st"
  shows "state_inv st'"
  using assms
  by (simp add: state_inv_def heap_balanced_def owners_valid_def sole_owner_def no_leak_def)

lemma buffer_ctor_init_Inr:
  assumes "buffer_ctor_init cfg sz initialize r h = Inr (b, h'')"
  shows "\<exists>h' m. buffer_ctor cfg sz r h = Inr (b, h') \<and> h'' = h'\<lparr>mem := m\<rparr>"
proof -
  from assms obtain h' where ctor: "buffer_ctor cfg sz r h = Inr (b, h')"
    and h'': "h'' = h' \<or> h'' = memcpy (m_begin b) initialize (min (length initialize) (unat sz)) h'"
    by (auto simp: buffer_ctor_init_def split: sum.splits if_splits)
  from h'' have "\<exists>m. h'' = h'\<lparr>mem := m\<rparr>"
  proof
    assume "h'' = h'"
    then show ?thesis by (intro exI [of _ "mem h'"]) simp
  next
    assume "h'' = memcpy (m_begin b) initialize (min (length initialize) (unat sz)) h'"
    then show ?thesis unfolding memcpy_def by blast
  qed
  with ctor show ?thesis by blast
qed

lemma new_buffer_init_inv:
  assumes inv: "state_inv st"
    and res: "new_buffer_init cfg this sz initialize r st = Inr st'"
  shows "state_inv st'"
proof -
  from res have fresh: "objs st this = None"
    by (auto simp: new_buffer_init_def split: if_splits)
  from res fresh obtain b h'' where
    ci: "buffer_ctor_init cfg sz initialize r (heap st) = Inr (b, h'')"
    and st': "st' = st\<lparr>heap := h'', objs := (objs st)(this \<mapsto> b)\<rparr>"
    by (auto simp: new_buffer_init_def split: sum.splits)
  from buffer_ctor_init_Inr [OF ci] obtain h' m where
    ctor: "buffer_ctor cfg sz r (heap st) = Inr (b, h')" and h'': "h'' = h'\<lparr>mem := m\<rparr>"
    by blast
  let ?st1 = "st\<lparr>heap := h', objs := (objs st)(this \<mapsto> b)\<rparr>"
  have "new_buffer cfg this sz r st = Inr ?st1"
    using fresh ctor by (simp add: new_buffer_def)
  with inv have "state_inv ?st1" by (rule new_buffer_inv)
  then show ?thesis by (rule state_inv_mem [where m = m]) (simp_all add: st' h'')
qed

lemma buffer_move_ctor_inv:
  assumes inv: "state_inv st" and res: "buffer_move_ctor this b st = Inr st'"
  shows "state_inv st'"
proof -
  from res obtain x where fresh: "objs st this = None" and b: "objs st b = Some x"
    by (auto simp: buffer_move_ctor_def split: if_splits)
  have ne: "this \<noteq> b" using fresh b by auto
  let ?st1 = "st\<lparr>objs := (objs st)(this \<mapsto> \<lparr>m_begin = 0, m_size = 0\<rparr>)\<rparr>"
  have inv1: "state_inv ?st1" using inv fresh by (rule inv_add_null)
  have "state_inv (?st1\<lparr>objs := (objs ?st1)(this \<mapsto> x, b \<mapsto> \<lparr>m_begin = 0, m_size = 0\<rparr>)\<rparr>)"
    using inv1 by (rule inv_exchange) (use b ne in simp_all)
  moreover have "st' = ?st1\<lparr>objs := (objs ?st1)(this \<mapsto> x, b \<mapsto> \<lparr>m_begin = 0, m_size = 0\<rparr>)\<rparr>"
    using res by (simp add: buffer_move_ctor_eq [OF fresh b] buffer_eta)
  ultimately show ?thesis by simp
qed

lemma buffer_move_assign_inv:
  assumes inv: "state_inv st" and res: "buffer_move_assign this b st = Inr st'"
  shows "state_inv st'"
proof -
  from res obtain t x where obj: "objs st this = Some t" and b: "objs st b = Some x"
    by (auto simp: buffer_move_assign_def split: if_splits)
  show ?thesis
  proof (cases "b = this")
    case True
    with res obj inv show ?thesis by (simp add: buffer_move_assign_self)
  next
    case ne: False
    from inv_release [OF inv obj] obtain h' where fr: "free (m_begin t) (heap st) = Inr h'"
      and inv1: "state_inv (st\<lparr>heap := h', objs := (objs st)(this \<mapsto> \<lparr>m_begin = 0, m_size = 0\<rparr>)\<rparr>)"
      by blast
    let ?st1 = "st\<lparr>heap := h', objs := (objs st)(this \<mapsto> \<lparr>m_begin = 0, m_size = 0\<rparr>)\<rparr>"
    have "state_inv (?st1\<lparr>objs := (objs ?st1)(this \<mapsto> x, b \<mapsto> \<lparr>m_begin = 0, m_size = 0\<rparr>)\<rparr>)"
      using inv1 by (rule inv_exchange) (use b ne in simp_all)
    moreover have "st' = ?st1\<lparr>objs := (objs ?st1)(this \<mapsto> x, b \<mapsto> \<lparr>m_begin = 0, m_size = 0\<rparr>)\<rparr>"
      using res by (simp add: buffer_move_assign_eq [OF obj b ne fr] buffer_eta)
    ultimately show ?thesis by simp
  qed
qed

lemma buffer_swap_inv:
  assumes inv: "state_inv st" and res: "buffer_swap this b st = Inr st'"
  shows "state_inv st'"
proof -
  from res obtain t x where obj: "objs st this = Some t" and b: "objs st b = Some x"
    by (auto simp: buffer_swap_def split: if_splits)
  from res have "st' = st\<lparr>objs := (objs st)(this \<mapsto> x, b \<mapsto> t)\<rparr>"
    by (simp add: buffer_swap_eq [OF obj b] buffer_eta)
  with inv_exchange [OF inv obj b] show ?thesis by simp
qed

lemma buffer_dtor_inv:
  assumes inv: "state_inv st" and res: "buffer_dtor this st = Inr st'"
  shows "state_inv st'"
proof -
  from res obtain t where obj: "objs st this = Some t"
    by (auto simp: buffer_dtor_def split: if_splits)
  from inv_release [OF inv obj] obtain h' where fr: "free (m_begin t) (heap st) = Inr h'"
    and inv1: "state_inv (st\<lparr>heap := h', objs := (objs st)(this \<mapsto> \<lparr>m_begin = 0, m_size = 0\<rparr>)\<rparr>)"
    by blast
  let ?st1 = "st\<lparr>heap := h', objs := (objs st)(this \<mapsto> \<lparr>m_begin = 0, m_size = 0\<rparr>)\<rparr>"
  have "state_inv (?st1\<lparr>objs := (objs ?st1)(this := None)\<rparr>)"
    using inv1 by (rule inv_remove_null) simp
  moreover have "st' = ?st1\<lparr>objs := (objs ?st1)(this := None)\<rparr>"
    using res by (simp add: buffer_dtor_eq [OF obj fr])
  ultimately show ?thesis by simp
qed

lemma exec_inv:
  assumes "state_inv st" and "exec cfg c st = Inr st'"
  shows "state_inv st'"
proof (cases c)
  case (New this sz r)
  with assms show ?thesis by (auto intro: new_buffer_inv)
next
  case (NewInit this sz initialize r)
  with assms show ?thesis by (auto intro: new_buffer_init_inv)
next
  case (MoveNew this b)
  with assms show ?thesis by (auto intro: buffer_move_ctor_inv)
next
  case (MoveAssign this b)
  with assms show ?thesis by (auto intro: buffer_move_assign_inv)
next
  case (Swap this b)
  with assms show ?thesis by (auto intro: buffer_swap_inv)
next
  case (Delete this)
  with assms show ?thesis by (auto intro: buffer_dtor_inv)
qed

lemma run_inv:
  assumes "state_inv st" and "run cfg cs st = Inr st'"
  shows "state_inv st'"
  using assms
proof (induction cs arbitrary: st)
  case Nil
  then show ?case by simp
next
  case (Cons c cs)
  from Cons.prems(2) obtain st1 where ex: "exec cfg c st = Inr st1" and rest: "run cfg cs st1 = Inr st'"
    by (auto split: sum.splits)
  have "state_inv st1" using Cons.prems(1) ex by (rule exec_inv)
  then show ?case using rest by (rule Cons.IH)
qed

subsection \<open>Running a program on concrete inputs\<close>

lemmas eval_defs =
  new_buffer_def new_buffer_init_def buffer_ctor_def buffer_ctor_init_def malloc_def block_free_def
  malloc_usable_size_def memcpy_def round_up8_def int32_max_def state_init_def heap_init_def
  buffer_move_ctor_def buffer_move_assign_def buffer_swap_def buffer_dtor_def free_def
  get_begin_def get_size_def set_begin_def set_size_def Let_def

section \<open>Properties\<close>

subsection \<open>Constructing with size 0\<close>

text \<open>
  C9. Constructing a buffer with requested size 0 performs no heap allocation (the heap,
  and with it the table of allocations and the allocation count, is returned unchanged)
  and yields a buffer with a null data pointer, \<^verbatim>\<open>size() == 0\<close> and \<^verbatim>\<open>empty() == true\<close>, on
  which \<^verbatim>\<open>operator[]\<close> fails its bounds assertion at every index.
\<close>

theorem allocate_zero_empty:
  "\<exists>b. buffer_ctor cfg 0 r h = Inr (b, h)
      \<and> m_begin b = 0 \<and> buffer_size b = 0 \<and> buffer_empty b
      \<and> (\<forall>i h'. buffer_at b i h' = Inl AssertionFailed)"
  by (simp add: buffer_ctor_def int32_max_def buffer_size_def buffer_empty_def buffer_at_def)

subsection \<open>The size of a constructed buffer\<close>

text \<open>
  C2. For every requested size \<open>sz > 0\<close> below the bound the constructor asserts: the
  constructor asks the allocator for \<open>round_up8 sz\<close> bytes, which is \<open>sz\<close> rounded up to the
  next multiple of 8 (a multiple of 8, not below \<open>sz\<close>, and less than 8 above it). Whenever
  the allocator can place the block, with whatever slack, the constructor succeeds, the
  block it holds has \<open>round_up8 sz + slack\<close> usable bytes, and \<^verbatim>\<open>size()\<close> is that usable size
  where the allocator is asked for it and \<open>round_up8 sz\<close> otherwise: at least
  \<open>round_up8 sz\<close>, and strictly larger when the allocator is asked and gave slack. And
  every construction that succeeds, whatever the allocator did, has \<^verbatim>\<open>size()\<close> at least
  \<open>round_up8 sz\<close>, within a live block of at least that many usable bytes.
\<close>

theorem ctor_size_at_least_round_up8:
  assumes "sz \<noteq> 0" and "sz < int32_max"
  shows "(block_free h p (2 ^ 31 + unat slack) \<longrightarrow>
           (\<exists>b h'. buffer_ctor cfg sz (Some (p, slack)) h = Inr (b, h')
              \<and> m_begin b = p
              \<and> allocs h' = (allocs h)(p \<mapsto> round_up8 sz + slack)
              \<and> buffer_size b =
                  (if platform cfg = Portable then round_up8 sz else round_up8 sz + slack)
              \<and> round_up8 sz \<le> buffer_size b
              \<and> (platform cfg \<noteq> Portable \<longrightarrow> slack \<noteq> 0 \<longrightarrow> round_up8 sz < buffer_size b)))
       \<and> (\<forall>b h'. buffer_ctor cfg sz r h = Inr (b, h') \<longrightarrow>
             round_up8 sz \<le> buffer_size b
             \<and> (\<exists>u. allocs h' (m_begin b) = Some u \<and> round_up8 sz \<le> u \<and> buffer_size b \<le> u))
       \<and> 8 dvd unat (round_up8 sz)
       \<and> unat sz \<le> unat (round_up8 sz) \<and> unat (round_up8 sz) < unat sz + 8"
proof -
  have r: "unat (round_up8 sz) = ((unat sz + 7) div 8) * 8"
    by (rule round_up8_pre [OF assms(2)])
  have "8 dvd unat (round_up8 sz)" by (simp add: r)
  moreover have "unat sz \<le> unat (round_up8 sz)" by (simp add: r)
  moreover have "unat (round_up8 sz) < unat sz + 8" by (simp add: r)
  ultimately have rounding: "8 dvd unat (round_up8 sz) \<and> unat sz \<le> unat (round_up8 sz)
      \<and> unat (round_up8 sz) < unat sz + 8"
    by simp
  have sizes: "round_up8 sz \<le> (if platform cfg = Portable then round_up8 sz else round_up8 sz + slack')
      \<and> (platform cfg \<noteq> Portable \<longrightarrow> slack' \<noteq> 0 \<longrightarrow>
            round_up8 sz < (if platform cfg = Portable then round_up8 sz else round_up8 sz + slack'))
      \<and> (if platform cfg = Portable then round_up8 sz else round_up8 sz + slack')
            \<le> round_up8 sz + slack'"
    if fits: "block_free h' q (unat (round_up8 sz) + unat slack')" for h' q slack'
  proof -
    have u: "unat (round_up8 sz + slack') = unat (round_up8 sz) + unat slack'"
      using fits by (rule unat_usable)
    have "0 < unat slack'" if "slack' \<noteq> 0" using that by (simp add: unat_gt_0)
    then show ?thesis by (auto simp: word_le_nat_alt word_less_nat_alt u)
  qed
  have placed: "\<exists>b h'. buffer_ctor cfg sz (Some (p, slack)) h = Inr (b, h')
              \<and> m_begin b = p
              \<and> allocs h' = (allocs h)(p \<mapsto> round_up8 sz + slack)
              \<and> buffer_size b =
                  (if platform cfg = Portable then round_up8 sz else round_up8 sz + slack)
              \<and> round_up8 sz \<le> buffer_size b
              \<and> (platform cfg \<noteq> Portable \<longrightarrow> slack \<noteq> 0 \<longrightarrow> round_up8 sz < buffer_size b)"
    if room: "block_free h p (2 ^ 31 + unat slack)"
  proof -
    have fits: "block_free h p (unat (round_up8 sz) + unat slack)"
      using assms(2) room by (rule block_free_room)
    show ?thesis
      using sizes [OF fits]
      by (simp add: buffer_ctor_Some [OF assms(2) assms(1) fits] buffer_size_def)
  qed
  have any: "round_up8 sz \<le> buffer_size b
             \<and> (\<exists>u. allocs h' (m_begin b) = Some u \<and> round_up8 sz \<le> u \<and> buffer_size b \<le> u)"
    if res: "buffer_ctor cfg sz r h = Inr (b, h')" for b h'
  proof -
    from buffer_ctor_Inr [OF res assms(1)] obtain q slack' where
      fits: "block_free h q (unat (round_up8 sz) + unat slack')"
      and b: "b = \<lparr>m_begin = q,
              m_size = (if platform cfg = Portable then round_up8 sz else round_up8 sz + slack')\<rparr>"
      and h': "h' = h\<lparr>allocs := (allocs h)(q \<mapsto> round_up8 sz + slack'), mallocs := Suc (mallocs h)\<rparr>"
      by blast
    show ?thesis
      using sizes [OF fits] usable_ge [OF fits] by (simp add: b h' buffer_size_def)
  qed
  show ?thesis using rounding placed any by blast
qed

text \<open>
  On glibc a request of 9 bytes, placed with 8 bytes of slack, gives a buffer of size 24,
  strictly above \<open>round_up8 9 = 16\<close>.
\<close>

theorem ctor_size_at_least_round_up8_witness:
  "(9 :: size_t) \<noteq> 0 \<and> 9 < int32_max
   \<and> block_free heap_init 0x1000 (2 ^ 31 + unat (8 :: size_t))
   \<and> round_up8 9 = 16
   \<and> (\<exists>b h'. buffer_ctor \<lparr>platform = GLIBC, no_exceptions = False\<rparr> 9 (Some (0x1000, 8)) heap_init
                = Inr (b, h')
        \<and> allocs h' 0x1000 = Some 24
        \<and> round_up8 9 \<le> buffer_size b \<and> buffer_size b = 24 \<and> round_up8 9 < buffer_size b)"
proof -
  let ?cfg = "\<lparr>platform = GLIBC, no_exceptions = False\<rparr>"
  have a: "(9 :: size_t) \<noteq> 0" by simp
  have b: "(9 :: size_t) < int32_max" by (simp add: int32_max_def)
  have r: "round_up8 9 = 16" by (simp add: round_up8_def)
  have c: "block_free heap_init 0x1000 (2 ^ 31 + unat (8 :: size_t))"
    by (simp add: block_free_def heap_init_def)
  from ctor_size_at_least_round_up8 [OF a b, where h = heap_init and p = "0x1000" and slack = 8
      and cfg = ?cfg] c
  have "\<exists>b h'. buffer_ctor ?cfg 9 (Some (0x1000, 8)) heap_init = Inr (b, h')
              \<and> m_begin b = 0x1000
              \<and> allocs h' = (allocs heap_init)(0x1000 \<mapsto> round_up8 9 + 8)
              \<and> buffer_size b = (if platform ?cfg = Portable then round_up8 9 else round_up8 9 + 8)
              \<and> round_up8 9 \<le> buffer_size b
              \<and> (platform ?cfg \<noteq> Portable \<longrightarrow> (8 :: size_t) \<noteq> 0 \<longrightarrow> round_up8 9 < buffer_size b)"
    by blast
  then obtain x h' where "buffer_ctor ?cfg 9 (Some (0x1000, 8)) heap_init = Inr (x, h')"
    and "allocs h' = (allocs heap_init)(0x1000 \<mapsto> round_up8 9 + 8)"
    and "buffer_size x = round_up8 9 + 8"
    and "round_up8 9 \<le> buffer_size x" and "round_up8 9 < buffer_size x"
    by auto
  then show ?thesis using a b c r by auto
qed

text \<open>
  C10. In the portable branch (no allocator introspection), for every requested size
  \<open>sz > 0\<close> below the asserted bound: whenever the allocator can place the block the
  constructor succeeds, and every construction that succeeds has \<^verbatim>\<open>size()\<close> exactly
  \<open>round_up8 sz = (sz + 7) & ~7\<close>, that is \<open>(sz + 7) div 8 * 8\<close>, a multiple of 8, whatever
  slack the allocator gave.
\<close>

theorem portable_size_exact:
  assumes "sz \<noteq> 0" and "sz < int32_max" and "platform cfg = Portable"
  shows "(block_free h p (2 ^ 31 + unat slack) \<longrightarrow>
           (\<exists>b h'. buffer_ctor cfg sz (Some (p, slack)) h = Inr (b, h')
              \<and> buffer_size b = round_up8 sz
              \<and> unat (buffer_size b) = ((unat sz + 7) div 8) * 8
              \<and> 8 dvd unat (buffer_size b)))
       \<and> (\<forall>b h'. buffer_ctor cfg sz r h = Inr (b, h') \<longrightarrow>
             buffer_size b = round_up8 sz
             \<and> unat (buffer_size b) = ((unat sz + 7) div 8) * 8
             \<and> 8 dvd unat (buffer_size b))
       \<and> round_up8 sz = (sz + 7) AND NOT 7"
proof -
  have r: "unat (round_up8 sz) = ((unat sz + 7) div 8) * 8"
    by (rule round_up8_pre [OF assms(2)])
  have placed: "\<exists>b h'. buffer_ctor cfg sz (Some (p, slack)) h = Inr (b, h')
              \<and> buffer_size b = round_up8 sz
              \<and> unat (buffer_size b) = ((unat sz + 7) div 8) * 8
              \<and> 8 dvd unat (buffer_size b)"
    if room: "block_free h p (2 ^ 31 + unat slack)"
  proof -
    have fits: "block_free h p (unat (round_up8 sz) + unat slack)"
      using assms(2) room by (rule block_free_room)
    show ?thesis
      using assms(3) r by (simp add: buffer_ctor_Some [OF assms(2) assms(1) fits] buffer_size_def)
  qed
  have any: "buffer_size b = round_up8 sz
             \<and> unat (buffer_size b) = ((unat sz + 7) div 8) * 8
             \<and> 8 dvd unat (buffer_size b)"
    if res: "buffer_ctor cfg sz r h = Inr (b, h')" for b h'
    using buffer_ctor_Inr [OF res assms(1)] assms(3) r by (auto simp: buffer_size_def)
  have "round_up8 sz = (sz + 7) AND NOT 7" by (simp add: round_up8_def)
  with placed any show ?thesis by blast
qed

theorem portable_size_exact_witness:
  "(1000 :: size_t) \<noteq> 0 \<and> 1000 < int32_max
   \<and> block_free heap_init 0x1000 (2 ^ 31 + unat (32 :: size_t))
   \<and> (\<exists>b h'. buffer_ctor \<lparr>platform = Portable, no_exceptions = False\<rparr> 1000 (Some (0x1000, 32)) heap_init
                = Inr (b, h')
        \<and> allocs h' 0x1000 = Some 1032
        \<and> buffer_size b = round_up8 1000 \<and> unat (buffer_size b) = 1000 \<and> 8 dvd unat (buffer_size b))"
proof -
  let ?cfg = "\<lparr>platform = Portable, no_exceptions = False\<rparr>"
  have a: "(1000 :: size_t) \<noteq> 0" by simp
  have b: "(1000 :: size_t) < int32_max" by (simp add: int32_max_def)
  have c: "block_free heap_init 0x1000 (2 ^ 31 + unat (32 :: size_t))"
    by (simp add: block_free_def heap_init_def)
  have d: "platform ?cfg = Portable" by simp
  have e: "\<exists>b h'. buffer_ctor ?cfg 1000 (Some (0x1000, 32)) heap_init = Inr (b, h')
      \<and> allocs h' 0x1000 = Some 1032"
    by (simp add: eval_defs)
  then obtain x h' where res: "buffer_ctor ?cfg 1000 (Some (0x1000, 32)) heap_init = Inr (x, h')"
    and l: "allocs h' 0x1000 = Some 1032"
    by blast
  from portable_size_exact [OF a b d, where r = "Some (0x1000, 32)" and h = heap_init] res
  have "buffer_size x = round_up8 1000 \<and> unat (buffer_size x) = ((unat (1000 :: size_t) + 7) div 8) * 8
      \<and> 8 dvd unat (buffer_size x)"
    by blast
  then show ?thesis using a b c res l by auto
qed

subsection \<open>Allocation failure\<close>

text \<open>
  C8. For every requested size \<open>sz > 0\<close>, when the allocator fails (it is out of memory:
  \<^verbatim>\<open>malloc\<close> returns null) the sizing constructor returns no buffer at all; whenever the
  allocation is attempted, that is for every \<open>sz\<close> that passes the constructor's assertion,
  it ends with \<^verbatim>\<open>std::bad_alloc\<close>, or with \<^verbatim>\<open>std::terminate\<close> where exceptions are disabled.
  Every construction that succeeds leaves a valid buffer: size 0 exactly with the null
  pointer, otherwise the base of a live allocation of at least \<open>m_size\<close> bytes. There is
  nothing in between: whatever the allocator does, an attempted allocation ends either
  with that failure or with a valid, non-empty buffer.
\<close>

theorem ctor_out_of_memory:
  "(sz \<noteq> 0 \<longrightarrow>
      (\<exists>e. buffer_ctor cfg sz None h = Inl e) \<and>
      (sz < int32_max \<longrightarrow>
         buffer_ctor cfg sz None h = Inl (if no_exceptions cfg then Terminated else BadAlloc)))
   \<and> (buffer_ctor cfg sz r h = Inr (b, h') \<longrightarrow> buffer_valid h' b)
   \<and> (sz \<noteq> 0 \<longrightarrow> sz < int32_max \<longrightarrow>
         buffer_ctor cfg sz r h = Inl (if no_exceptions cfg then Terminated else BadAlloc)
         \<or> (\<exists>x h1. buffer_ctor cfg sz r h = Inr (x, h1) \<and> buffer_valid h1 x \<and> \<not> buffer_empty x))"
proof -
  have 1: "\<exists>e. buffer_ctor cfg sz None h = Inl e" if "sz \<noteq> 0"
    using that by (simp add: buffer_ctor_def malloc_def)
  have 2: "buffer_ctor cfg sz r h = Inl (if no_exceptions cfg then Terminated else BadAlloc)
         \<or> (\<exists>x h1. buffer_ctor cfg sz r h = Inr (x, h1) \<and> buffer_valid h1 x \<and> \<not> buffer_empty x)"
    if nz: "sz \<noteq> 0" and pre: "sz < int32_max"
  proof (cases "buffer_ctor cfg sz r h")
    case (Inl e)
    then have "e = (if no_exceptions cfg then Terminated else BadAlloc)"
      using nz pre by (auto simp: buffer_ctor_def Let_def split: if_splits prod.splits)
    with Inl show ?thesis by simp
  next
    case (Inr xh)
    obtain x h1 where xh: "xh = (x, h1)" by (cases xh)
    from Inr xh have res: "buffer_ctor cfg sz r h = Inr (x, h1)" by simp
    have v: "buffer_valid h1 x" using res by (rule buffer_ctor_valid)
    have "m_begin x \<noteq> 0" using buffer_ctor_Inr [OF res nz] by (auto simp: block_free_def)
    with v have "\<not> buffer_empty x" by (auto simp: buffer_valid_def buffer_empty_def)
    with res v show ?thesis by blast
  qed
  show ?thesis
    using 1 2 buffer_ctor_None [of sz cfg h] buffer_ctor_valid [of cfg sz r h b h'] by blast
qed

theorem ctor_out_of_memory_witness:
  "(16 :: size_t) \<noteq> 0 \<and> 16 < int32_max
   \<and> buffer_ctor \<lparr>platform = GLIBC, no_exceptions = False\<rparr> 16 None heap_init = Inl BadAlloc
   \<and> buffer_ctor \<lparr>platform = GLIBC, no_exceptions = False\<rparr> 16 (Some (0x1000, 8)) heap_init
       = Inr (\<lparr>m_begin = 0x1000, m_size = 24\<rparr>,
              heap_init\<lparr>allocs := (allocs heap_init)(0x1000 \<mapsto> 24), mallocs := Suc (mallocs heap_init)\<rparr>)
   \<and> buffer_valid (heap_init\<lparr>allocs := (allocs heap_init)(0x1000 \<mapsto> 24), mallocs := Suc (mallocs heap_init)\<rparr>)
        \<lparr>m_begin = 0x1000, m_size = 24\<rparr>"
proof -
  let ?cfg = "\<lparr>platform = GLIBC, no_exceptions = False\<rparr>"
  let ?h' = "heap_init\<lparr>allocs := (allocs heap_init)(0x1000 \<mapsto> 24), mallocs := Suc (mallocs heap_init)\<rparr>"
  have a: "(16 :: size_t) \<noteq> 0" by simp
  have b: "(16 :: size_t) < int32_max" by (simp add: int32_max_def)
  have d: "buffer_ctor ?cfg 16 (Some (0x1000, 8)) heap_init = Inr (\<lparr>m_begin = 0x1000, m_size = 24\<rparr>, ?h')"
    by (simp add: eval_defs)
  from ctor_out_of_memory [where sz = 16 and cfg = ?cfg and h = heap_init
      and r = "Some (0x1000, 8)" and b = "\<lparr>m_begin = 0x1000, m_size = 24\<rparr>" and h' = ?h']
  show ?thesis using a b d by simp
qed

subsection \<open>Construction from an initialiser\<close>

text \<open>
  C3. For every requested size \<open>sz\<close> the constructor accepts and every byte sequence
  \<open>initialize\<close> no longer than \<open>sz\<close> (the asserted precondition), the initialising
  constructor succeeds whenever the allocator can place the block. Reading the buffer with
  \<^verbatim>\<open>operator[]\<close> at each index below the length of the sequence gives the byte of the
  sequence. Exactly the bytes of the sequence are copied, to the start of the buffer: memory
  afterwards holds the sequence at the \<open>length initialize\<close> addresses from \<open>m_begin\<close> on and
  is unchanged everywhere else. And \<^verbatim>\<open>size()\<close> is the size the sizing constructor gives, at
  least \<open>round_up8 sz\<close>.
\<close>

theorem ctor_init_copies_prefix:
  assumes "sz < int32_max" and "length initialize \<le> unat sz"
    and "block_free h p (2 ^ 31 + unat slack)"
  shows "\<exists>b h'. buffer_ctor_init cfg sz initialize (Some (p, slack)) h = Inr (b, h')
           \<and> (\<forall>i < length initialize. buffer_at b (of_nat i) h' = Inr (initialize ! i))
           \<and> (\<forall>a. mem h' a =
                 (if unat (a - m_begin b) < length initialize
                  then initialize ! unat (a - m_begin b) else mem h a))
           \<and> buffer_size b =
               (if sz = 0 then 0
                else if platform cfg = Portable then round_up8 sz else round_up8 sz + slack)
           \<and> round_up8 sz \<le> buffer_size b"
proof (cases "sz = 0")
  case True
  with assms(2) show ?thesis
    by (simp add: buffer_ctor_init_def buffer_ctor_zero buffer_size_def round_up8_def)
next
  case nz: False
  have fits: "block_free h p (unat (round_up8 sz) + unat slack)"
    using assms(1,3) by (rule block_free_room)
  let ?n = "if platform cfg = Portable then round_up8 sz else round_up8 sz + slack"
  let ?b = "\<lparr>m_begin = p, m_size = ?n\<rparr>"
  let ?h1 = "h\<lparr>allocs := (allocs h)(p \<mapsto> round_up8 sz + slack), mallocs := Suc (mallocs h)\<rparr>"
  have ctor: "buffer_ctor cfg sz (Some (p, slack)) h = Inr (?b, ?h1)"
    by (rule buffer_ctor_Some [OF assms(1) nz fits])
  have n: "round_up8 sz \<le> ?n" using usable_ge [OF fits] by simp
  have szn: "sz \<le> ?n" using round_up8_ge [OF assms(1)] n by (rule order_trans)
  have small: "unat sz < 2 ^ 64" using pre_unat [OF assms(1)] by simp
  have idx: "of_nat i < ?n" if "i < length initialize" for i
  proof -
    have i: "i < unat sz" using that assms(2)
      by (rule order_less_le_trans)
    have "unat (of_nat i :: 64 word) = i" using i small by (simp add: unat_of_nat64)
    then have "(of_nat i :: 64 word) < sz" using i by (simp add: word_less_nat_alt)
    then show ?thesis using szn by (rule less_le_trans)
  qed
  show ?thesis
  proof (cases "initialize = []")
    case True
    then show ?thesis using n nz by (simp add: buffer_ctor_init_def ctor buffer_size_def)
  next
    case False
    let ?h2 = "memcpy p initialize (min (length initialize) (unat sz)) ?h1"
    have res: "buffer_ctor_init cfg sz initialize (Some (p, slack)) h = Inr (?b, ?h2)"
      using False assms(2) by (simp add: buffer_ctor_init_def ctor)
    have bytes: "buffer_at ?b (of_nat i) ?h2 = Inr (initialize ! i)" if "i < length initialize" for i
    proof -
      have "i < 2 ^ 64" using that assms(2) small by linarith
      then have "mem ?h2 (p + of_nat i) = initialize ! i"
        using that assms(2) by (intro memcpy_read) simp_all
      then show ?thesis using idx [OF that] by (simp add: buffer_at_def buffer_size_def)
    qed
    have frame: "mem ?h2 a =
        (if unat (a - m_begin ?b) < length initialize
         then initialize ! unat (a - m_begin ?b) else mem h a)" for a
      using assms(2) by (simp add: memcpy_def min_absorb1)
    show ?thesis
      using res bytes frame n nz by (simp add: buffer_size_def)
  qed
qed

text \<open>
  Ten bytes into a buffer of requested size 16: the first and the last are read back, and
  the byte after them is as it was.
\<close>

theorem ctor_init_copies_prefix_witness:
  "(16 :: size_t) < int32_max
   \<and> length [10, 11, 12, 13, 14, 15, 16, 17, 18, 19 :: byte] \<le> unat (16 :: size_t)
   \<and> block_free heap_init 0x1000 (2 ^ 31 + unat (8 :: size_t))
   \<and> (\<exists>b h'. buffer_ctor_init \<lparr>platform = GLIBC, no_exceptions = False\<rparr> 16
                  [10, 11, 12, 13, 14, 15, 16, 17, 18, 19] (Some (0x1000, 8)) heap_init = Inr (b, h')
        \<and> m_begin b = 0x1000
        \<and> buffer_at b 0 h' = Inr 10 \<and> buffer_at b 9 h' = Inr 19
        \<and> mem h' 0x100A = mem heap_init 0x100A
        \<and> buffer_size b = 24 \<and> 16 \<le> buffer_size b)"
proof -
  let ?cfg = "\<lparr>platform = GLIBC, no_exceptions = False\<rparr>"
  let ?init = "[10, 11, 12, 13, 14, 15, 16, 17, 18, 19 :: byte]"
  have a: "(16 :: size_t) < int32_max" by (simp add: int32_max_def)
  have b: "length ?init \<le> unat (16 :: size_t)" by simp
  have r: "round_up8 16 = 16" by (simp add: round_up8_def)
  have c: "block_free heap_init 0x1000 (2 ^ 31 + unat (8 :: size_t))"
    by (simp add: block_free_def heap_init_def)
  have "\<exists>b h'. buffer_ctor_init ?cfg 16 ?init (Some (0x1000, 8)) heap_init = Inr (b, h')
      \<and> m_begin b = 0x1000"
    by (simp add: eval_defs)
  then obtain x h' where res: "buffer_ctor_init ?cfg 16 ?init (Some (0x1000, 8)) heap_init = Inr (x, h')"
    and px: "m_begin x = 0x1000"
    by blast
  from ctor_init_copies_prefix [OF a b c, where cfg = ?cfg] res
  have bytes: "\<forall>i < length ?init. buffer_at x (of_nat i) h' = Inr (?init ! i)"
    and frame: "\<forall>a. mem h' a =
                 (if unat (a - m_begin x) < length ?init
                  then ?init ! unat (a - m_begin x) else mem heap_init a)"
    and sz: "buffer_size x = (if (16 :: size_t) = 0 then 0
                else if platform ?cfg = Portable then round_up8 16 else round_up8 16 + 8)"
    by auto
  have b0: "buffer_at x 0 h' = Inr 10" using bytes [rule_format, of 0] by simp
  have b9: "buffer_at x 9 h' = Inr 19" using bytes [rule_format, of 9] by simp
  have after: "mem h' 0x100A = mem heap_init 0x100A"
    using frame [rule_format, of "0x100A"] by (simp add: px)
  have s24: "buffer_size x = 24" using sz by (simp add: r)
  show ?thesis using a b c res px b0 b9 after s24 by auto
qed

subsection \<open>The view of a buffer\<close>

text \<open>
  C6. The view of a buffer that the constructor accepted cannot always be measured. The
  constructor asserts that the requested size is below the largest 32-bit \<^verbatim>\<open>int\<close>, and only
  then rounds it up and takes the allocator's usable size. A requested size of \<open>2^31 - 7\<close>
  passes the assertion; without allocator introspection the buffer then has size \<open>2^31\<close>,
  the difference \<open>end - begin\<close> of the view \<^verbatim>\<open>data()\<close> returns is \<open>2^31\<close>, and \<^verbatim>\<open>left()\<close> fails
  its assertion that the difference is below the largest \<^verbatim>\<open>int\<close>. With introspection the
  same happens when the usable size reaches that bound: a requested size of \<open>2^31 - 8\<close>
  whose block has 4088 bytes of slack.
\<close>

theorem left_fails_on_accepted_size:
  "(0x7FFFFFF9 :: size_t) < int32_max
   \<and> buffer_ctor \<lparr>platform = Portable, no_exceptions = False\<rparr> 0x7FFFFFF9 (Some (0x10000, 0)) heap_init
       = Inr (\<lparr>m_begin = 0x10000, m_size = 0x80000000\<rparr>,
              heap_init\<lparr>allocs := (allocs heap_init)(0x10000 \<mapsto> 0x80000000),
                        mallocs := Suc (mallocs heap_init)\<rparr>)
   \<and> buffer_size \<lparr>m_begin = 0x10000, m_size = 0x80000000\<rparr> = 0x80000000
   \<and> i_begin (buffer_data \<lparr>m_begin = 0x10000, m_size = 0x80000000\<rparr>)
       \<le> i_end (buffer_data \<lparr>m_begin = 0x10000, m_size = 0x80000000\<rparr>)
   \<and> sint (i_end (buffer_data \<lparr>m_begin = 0x10000, m_size = 0x80000000\<rparr>)
           - i_begin (buffer_data \<lparr>m_begin = 0x10000, m_size = 0x80000000\<rparr>)) = 2147483648
   \<and> interval_left (buffer_data \<lparr>m_begin = 0x10000, m_size = 0x80000000\<rparr>) = Inl AssertionFailed
   \<and> (0x7FFFFFF8 :: size_t) < int32_max
   \<and> buffer_ctor \<lparr>platform = GLIBC, no_exceptions = False\<rparr> 0x7FFFFFF8 (Some (0x10000, 0xFF8)) heap_init
       = Inr (\<lparr>m_begin = 0x10000, m_size = 0x80000FF0\<rparr>,
              heap_init\<lparr>allocs := (allocs heap_init)(0x10000 \<mapsto> 0x80000FF0),
                        mallocs := Suc (mallocs heap_init)\<rparr>)
   \<and> interval_left (buffer_data \<lparr>m_begin = 0x10000, m_size = 0x80000FF0\<rparr>) = Inl AssertionFailed"
proof -
  have b: "(0x7FFFFFF9 :: size_t) < int32_max" by (simp add: int32_max_def)
  have d: "buffer_ctor \<lparr>platform = Portable, no_exceptions = False\<rparr> 0x7FFFFFF9 (Some (0x10000, 0)) heap_init
       = Inr (\<lparr>m_begin = 0x10000, m_size = 0x80000000\<rparr>,
              heap_init\<lparr>allocs := (allocs heap_init)(0x10000 \<mapsto> 0x80000000),
                        mallocs := Suc (mallocs heap_init)\<rparr>)"
    by (simp add: eval_defs)
  have e: "interval_left (buffer_data \<lparr>m_begin = 0x10000, m_size = 0x80000000\<rparr>) = Inl AssertionFailed"
    by (simp add: interval_left_def buffer_data_def)
  have f: "buffer_size \<lparr>m_begin = 0x10000, m_size = 0x80000000\<rparr> = 0x80000000
   \<and> i_begin (buffer_data \<lparr>m_begin = 0x10000, m_size = 0x80000000\<rparr>)
       \<le> i_end (buffer_data \<lparr>m_begin = 0x10000, m_size = 0x80000000\<rparr>)
   \<and> sint (i_end (buffer_data \<lparr>m_begin = 0x10000, m_size = 0x80000000\<rparr>)
           - i_begin (buffer_data \<lparr>m_begin = 0x10000, m_size = 0x80000000\<rparr>)) = 2147483648"
    by (simp add: buffer_size_def buffer_data_def)
  have b': "(0x7FFFFFF8 :: size_t) < int32_max" by (simp add: int32_max_def)
  have d': "buffer_ctor \<lparr>platform = GLIBC, no_exceptions = False\<rparr> 0x7FFFFFF8 (Some (0x10000, 0xFF8)) heap_init
       = Inr (\<lparr>m_begin = 0x10000, m_size = 0x80000FF0\<rparr>,
              heap_init\<lparr>allocs := (allocs heap_init)(0x10000 \<mapsto> 0x80000FF0),
                        mallocs := Suc (mallocs heap_init)\<rparr>)"
    by (simp add: eval_defs)
  have e': "interval_left (buffer_data \<lparr>m_begin = 0x10000, m_size = 0x80000FF0\<rparr>) = Inl AssertionFailed"
    by (simp add: interval_left_def buffer_data_def)
  show ?thesis using b d e f b' d' e' by (simp only: simp_thms)
qed

subsection \<open>Moving\<close>

text \<open>
  C1. Let \<open>b1\<close> be a non-empty buffer. Move-constructing a new buffer \<open>b2\<close> from \<open>b1\<close>, and
  move-assigning \<open>b1\<close> to any other valid buffer \<open>b2\<close>, both succeed and leave \<open>b1\<close> empty
  (null pointer, size 0, \<^verbatim>\<open>empty()\<close> true), with \<open>b2\<close> holding the size and the data pointer
  that \<open>b1\<close> had before.
\<close>

theorem move_empties_source:
  assumes "objs st b1 = Some x" and "\<not> buffer_empty x"
  shows "(objs st b2 = None \<longrightarrow>
            (\<exists>st' y1 y2. buffer_move_ctor b2 b1 st = Inr st'
               \<and> objs st' b1 = Some y1 \<and> m_begin y1 = 0 \<and> m_size y1 = 0 \<and> buffer_empty y1
               \<and> objs st' b2 = Some y2 \<and> buffer_size y2 = buffer_size x \<and> m_begin y2 = m_begin x))
       \<and> (\<forall>d. objs st b2 = Some d \<longrightarrow> b2 \<noteq> b1 \<longrightarrow> buffer_valid (heap st) d \<longrightarrow>
            (\<exists>st' y1 y2. buffer_move_assign b2 b1 st = Inr st'
               \<and> objs st' b1 = Some y1 \<and> m_begin y1 = 0 \<and> m_size y1 = 0 \<and> buffer_empty y1
               \<and> objs st' b2 = Some y2 \<and> buffer_size y2 = buffer_size x \<and> m_begin y2 = m_begin x))"
proof (intro conjI impI allI)
  assume fresh: "objs st b2 = None"
  then have ne: "b2 \<noteq> b1" using assms(1) by auto
  show "\<exists>st' y1 y2. buffer_move_ctor b2 b1 st = Inr st'
               \<and> objs st' b1 = Some y1 \<and> m_begin y1 = 0 \<and> m_size y1 = 0 \<and> buffer_empty y1
               \<and> objs st' b2 = Some y2 \<and> buffer_size y2 = buffer_size x \<and> m_begin y2 = m_begin x"
    using ne by (simp add: buffer_move_ctor_eq [OF fresh assms(1)] buffer_empty_def buffer_size_def)
next
  fix d
  assume d: "objs st b2 = Some d" and ne: "b2 \<noteq> b1" and v: "buffer_valid (heap st) d"
  from free_valid [OF v] obtain h' where fr: "free (m_begin d) (heap st) = Inr h'" by blast
  have ne': "b1 \<noteq> b2" using ne by simp
  show "\<exists>st' y1 y2. buffer_move_assign b2 b1 st = Inr st'
               \<and> objs st' b1 = Some y1 \<and> m_begin y1 = 0 \<and> m_size y1 = 0 \<and> buffer_empty y1
               \<and> objs st' b2 = Some y2 \<and> buffer_size y2 = buffer_size x \<and> m_begin y2 = m_begin x"
    using ne by (simp add: buffer_move_assign_eq [OF d assms(1) ne' fr] buffer_empty_def buffer_size_def)
qed

theorem move_empties_source_witness:
  "\<exists>st. run \<lparr>platform = GLIBC, no_exceptions = False\<rparr>
           [New 1 16 (Some (0x1000, 8)), New 2 9 (Some (0x2000, 0))] state_init = Inr st
      \<and> objs st 1 = Some \<lparr>m_begin = 0x1000, m_size = 24\<rparr>
      \<and> \<not> buffer_empty \<lparr>m_begin = 0x1000, m_size = 24\<rparr>
      \<and> objs st 3 = None
      \<and> (\<exists>st' y1 y2. buffer_move_ctor 3 1 st = Inr st'
            \<and> objs st' 1 = Some y1 \<and> m_begin y1 = 0 \<and> m_size y1 = 0 \<and> buffer_empty y1
            \<and> objs st' 3 = Some y2 \<and> buffer_size y2 = 24 \<and> m_begin y2 = 0x1000)
      \<and> objs st 2 = Some \<lparr>m_begin = 0x2000, m_size = 16\<rparr>
      \<and> buffer_valid (heap st) \<lparr>m_begin = 0x2000, m_size = 16\<rparr>
      \<and> (\<exists>st' y1 y2. buffer_move_assign 2 1 st = Inr st'
            \<and> objs st' 1 = Some y1 \<and> m_begin y1 = 0 \<and> m_size y1 = 0 \<and> buffer_empty y1
            \<and> objs st' 2 = Some y2 \<and> buffer_size y2 = 24 \<and> m_begin y2 = 0x1000)"
proof -
  let ?x = "\<lparr>m_begin = 0x1000, m_size = 24\<rparr>" and ?d = "\<lparr>m_begin = 0x2000, m_size = 16\<rparr>"
  let ?st = "\<lparr>heap = heap_init\<lparr>allocs := (allocs heap_init)(0x1000 \<mapsto> 24, 0x2000 \<mapsto> 16),
                                 mallocs := Suc (Suc (mallocs heap_init))\<rparr>,
              objs = [1 \<mapsto> ?x, 2 \<mapsto> ?d]\<rparr>"
  have r: "run \<lparr>platform = GLIBC, no_exceptions = False\<rparr>
           [New 1 16 (Some (0x1000, 8)), New 2 9 (Some (0x2000, 0))] state_init = Inr ?st"
    by (simp add: eval_defs)
  have o1: "objs ?st 1 = Some ?x" by simp
  have ne: "\<not> buffer_empty ?x" by (simp add: buffer_empty_def)
  have o3: "objs ?st 3 = None" by simp
  have o2: "objs ?st 2 = Some ?d" by simp
  have v: "buffer_valid (heap ?st) ?d" by (simp add: buffer_valid_def)
  from move_empties_source [OF o1 ne, of 3] o3
  have a: "\<exists>st' y1 y2. buffer_move_ctor 3 1 ?st = Inr st'
            \<and> objs st' 1 = Some y1 \<and> m_begin y1 = 0 \<and> m_size y1 = 0 \<and> buffer_empty y1
            \<and> objs st' 3 = Some y2 \<and> buffer_size y2 = 24 \<and> m_begin y2 = 0x1000"
    by (simp add: buffer_size_def)
  from move_empties_source [OF o1 ne, of 2] o2 v
  have b: "\<exists>st' y1 y2. buffer_move_assign 2 1 ?st = Inr st'
            \<and> objs st' 1 = Some y1 \<and> m_begin y1 = 0 \<and> m_size y1 = 0 \<and> buffer_empty y1
            \<and> objs st' 2 = Some y2 \<and> buffer_size y2 = 24 \<and> m_begin y2 = 0x1000"
    by (simp add: buffer_size_def)
  show ?thesis
    using r o1 ne o3 a o2 v b by (intro exI [of _ ?st]) (simp only: simp_thms)
qed

text \<open>
  C5. Move-assigning a buffer onto itself succeeds and changes nothing: the state after
  it is the state before it, so the buffer has the pointer and size it had, and the heap,
  with its table of allocations and its count of frees, is the same.
\<close>

theorem self_move_assign_noop:
  assumes "objs st b = Some x"
  shows "\<exists>st'. buffer_move_assign b b st = Inr st' \<and> st' = st
           \<and> objs st' b = Some x \<and> heap st' = heap st"
  using assms by (simp add: buffer_move_assign_self)

theorem self_move_assign_noop_witness:
  "\<exists>st. run \<lparr>platform = GLIBC, no_exceptions = False\<rparr> [New 1 16 (Some (0x1000, 8))] state_init = Inr st
      \<and> objs st 1 = Some \<lparr>m_begin = 0x1000, m_size = 24\<rparr>
      \<and> buffer_move_assign 1 1 st = Inr st
      \<and> frees (heap st) = 0 \<and> allocs (heap st) 0x1000 = Some 24"
proof -
  let ?st = "\<lparr>heap = heap_init\<lparr>allocs := (allocs heap_init)(0x1000 \<mapsto> 24), mallocs := Suc (mallocs heap_init)\<rparr>,
              objs = [1 \<mapsto> \<lparr>m_begin = 0x1000, m_size = 24\<rparr>]\<rparr>"
  have r: "run \<lparr>platform = GLIBC, no_exceptions = False\<rparr> [New 1 16 (Some (0x1000, 8))] state_init = Inr ?st"
    by (simp add: eval_defs)
  have o: "objs ?st 1 = Some \<lparr>m_begin = 0x1000, m_size = 24\<rparr>" by simp
  from self_move_assign_noop [OF o] have "buffer_move_assign 1 1 ?st = Inr ?st" by simp
  with r o show ?thesis by (simp add: heap_init_def)
qed

subsection \<open>Ownership along every program\<close>

text \<open>
  C7. In every state a program of constructions (sizing and initialising), move
  constructions, move assignments, swaps and destructions reaches from the initial state,
  whatever the allocator does, every live buffer has size 0 exactly if its data pointer is
  null; and a non-null data pointer is the base of a live allocation of at least \<open>m_size\<close>
  usable bytes which no other live buffer points to.
\<close>

theorem reachable_buffers_valid:
  assumes "run cfg cs state_init = Inr st" and "objs st x = Some b"
  shows "(m_size b = 0) = (m_begin b = 0)
       \<and> (m_begin b \<noteq> 0 \<longrightarrow>
            (\<exists>u. allocs (heap st) (m_begin b) = Some u \<and> m_size b \<le> u)
            \<and> (\<forall>y c. objs st y = Some c \<longrightarrow> m_begin c = m_begin b \<longrightarrow> y = x))"
proof -
  have inv: "state_inv st" using state_inv_init assms(1) by (rule run_inv)
  then have v: "buffer_valid (heap st) b" using assms(2)
    by (simp add: state_inv_def owners_valid_def)
  have sole: "sole_owner st" using inv by (simp add: state_inv_def)
  have "y = x" if "objs st y = Some c" "m_begin c = m_begin b" "m_begin b \<noteq> 0" for y c
    using sole assms(2) that unfolding sole_owner_def by metis
  then show ?thesis using v by (auto simp: buffer_valid_def split: option.splits)
qed

theorem reachable_buffers_valid_witness:
  "(\<exists>st. run \<lparr>platform = Portable, no_exceptions = False\<rparr>
     [New 1 16 (Some (0x1000, 8)), NewInit 2 9 [1, 2, 3] (Some (0x2000, 0)), New 3 0 None,
      MoveNew 4 1, Swap 2 3, MoveAssign 1 3] state_init = Inr st
      \<and> objs st 1 = Some \<lparr>m_begin = 0x2000, m_size = 16\<rparr>
      \<and> allocs (heap st) 0x2000 = Some 16
      \<and> (\<forall>y c. objs st y = Some c \<longrightarrow> m_begin c = 0x2000 \<longrightarrow> y = 1))"
proof -
  let ?cfg = "\<lparr>platform = Portable, no_exceptions = False\<rparr>"
  let ?cs = "[New 1 16 (Some (0x1000, 8)), NewInit 2 9 [1, 2, 3] (Some (0x2000, 0)), New 3 0 None,
      MoveNew 4 1, Swap 2 3, MoveAssign 1 3]"
  have "\<exists>st. run ?cfg ?cs state_init = Inr st \<and> objs st 1 = Some \<lparr>m_begin = 0x2000, m_size = 16\<rparr>
      \<and> allocs (heap st) 0x2000 = Some 16"
    by (simp add: eval_defs)
  then obtain st where r: "run ?cfg ?cs state_init = Inr st"
    and o: "objs st 1 = Some \<lparr>m_begin = 0x2000, m_size = 16\<rparr>"
    and l: "allocs (heap st) 0x2000 = Some 16"
    by blast
  from reachable_buffers_valid [OF r o]
  have "\<forall>y c. objs st y = Some c \<longrightarrow> m_begin c = 0x2000 \<longrightarrow> y = 1" by simp
  with r o l show ?thesis by blast
qed

text \<open>
  C4. In every state such a program reaches: the allocations made are the frees plus the
  allocations still live, each live allocation has an owning buffer, and so once every
  buffer has been destroyed the count of allocations equals the count of frees. And
  move-assigning a buffer \<open>b\<close> into a distinct non-empty buffer \<open>d\<close> succeeds and releases
  exactly one allocation: the block \<open>d\<close> held, which was live, leaves the table of
  allocations, the count of frees grows by one, nothing is allocated, and the block that
  \<open>b\<close> held stays live.
\<close>

theorem no_double_free_on_reassignment:
  assumes "run cfg cs state_init = Inr st"
  shows "mallocs (heap st) = frees (heap st) + card (dom (allocs (heap st)))
       \<and> (\<forall>p u. allocs (heap st) p = Some u \<longrightarrow> (\<exists>x b. objs st x = Some b \<and> m_begin b = p))
       \<and> ((\<forall>x. objs st x = None) \<longrightarrow> mallocs (heap st) = frees (heap st))
       \<and> (\<forall>d b y x. objs st d = Some y \<longrightarrow> objs st b = Some x \<longrightarrow> d \<noteq> b \<longrightarrow> \<not> buffer_empty y \<longrightarrow>
            (\<exists>st'. buffer_move_assign d b st = Inr st'
               \<and> allocs (heap st) (m_begin y) \<noteq> None
               \<and> allocs (heap st') = (allocs (heap st))(m_begin y := None)
               \<and> frees (heap st') = Suc (frees (heap st))
               \<and> mallocs (heap st') = mallocs (heap st)
               \<and> (m_begin x \<noteq> 0 \<longrightarrow> allocs (heap st') (m_begin x) \<noteq> None)))"
proof -
  have inv: "state_inv st" using state_inv_init assms by (rule run_inv)
  then have bal: "heap_balanced (heap st)" and val: "owners_valid st"
    and sole: "sole_owner st" and leak: "no_leak st"
    by (simp_all add: state_inv_def)
  have 1: "mallocs (heap st) = frees (heap st) + card (dom (allocs (heap st)))"
    using bal by (simp add: heap_balanced_def)
  have 2: "\<forall>p u. allocs (heap st) p = Some u \<longrightarrow> (\<exists>x b. objs st x = Some b \<and> m_begin b = p)"
    using leak by (simp add: no_leak_def)
  have 3: "mallocs (heap st) = frees (heap st)" if "\<forall>x. objs st x = None"
  proof -
    have "allocs (heap st) p = None" for p
      using 2 that by (cases "allocs (heap st) p") auto
    then have "dom (allocs (heap st)) = {}" by (simp add: dom_def)
    with 1 show ?thesis by simp
  qed
  have 4: "\<exists>st'. buffer_move_assign d b st = Inr st'
               \<and> allocs (heap st) (m_begin y) \<noteq> None
               \<and> allocs (heap st') = (allocs (heap st))(m_begin y := None)
               \<and> frees (heap st') = Suc (frees (heap st))
               \<and> mallocs (heap st') = mallocs (heap st)
               \<and> (m_begin x \<noteq> 0 \<longrightarrow> allocs (heap st') (m_begin x) \<noteq> None)"
    if d: "objs st d = Some y" and b: "objs st b = Some x" and ne: "d \<noteq> b" and y: "\<not> buffer_empty y"
    for d b y x
  proof -
    have vy: "buffer_valid (heap st) y" using val d by (simp add: owners_valid_def)
    have vx: "buffer_valid (heap st) x" using val b by (simp add: owners_valid_def)
    have nz: "m_begin y \<noteq> 0" using vy y by (auto simp: buffer_valid_def buffer_empty_def)
    from buffer_valid_live [OF vy nz] obtain u where live: "allocs (heap st) (m_begin y) = Some u" ..
    let ?h = "(heap st)\<lparr>allocs := (allocs (heap st))(m_begin y := None), frees := Suc (frees (heap st))\<rparr>"
    have fr: "free (m_begin y) (heap st) = Inr ?h" using nz live by (rule free_live)
    have ne': "b \<noteq> d" using ne by simp
    have diff: "m_begin x \<noteq> m_begin y"
    proof
      assume "m_begin x = m_begin y"
      with sole d b nz have "d = b" unfolding sole_owner_def by metis
      with ne show False by simp
    qed
    have "allocs ?h (m_begin x) \<noteq> None" if "m_begin x \<noteq> 0"
      using buffer_valid_live [OF vx that] diff by auto
    then show ?thesis
      using live by (simp add: buffer_move_assign_eq [OF d b ne' fr])
  qed
  show ?thesis using 1 2 3 4 by blast
qed

theorem no_double_free_on_reassignment_witness:
  "(\<exists>st st'. run \<lparr>platform = GLIBC, no_exceptions = False\<rparr>
           [New 1 16 (Some (0x1000, 8)), New 2 9 (Some (0x2000, 0))] state_init = Inr st
        \<and> objs st 1 = Some \<lparr>m_begin = 0x1000, m_size = 24\<rparr>
        \<and> objs st 2 = Some \<lparr>m_begin = 0x2000, m_size = 16\<rparr>
        \<and> \<not> buffer_empty \<lparr>m_begin = 0x1000, m_size = 24\<rparr>
        \<and> mallocs (heap st) = frees (heap st) + card (dom (allocs (heap st)))
        \<and> buffer_move_assign 1 2 st = Inr st'
        \<and> allocs (heap st') = (allocs (heap st))(0x1000 := None)
        \<and> frees (heap st') = Suc (frees (heap st))
        \<and> mallocs (heap st') = mallocs (heap st)
        \<and> allocs (heap st') 0x2000 \<noteq> None)
   \<and> (\<exists>st. run \<lparr>platform = GLIBC, no_exceptions = False\<rparr>
     [New 1 16 (Some (0x1000, 8)), New 2 9 (Some (0x2000, 0)), MoveAssign 1 2, Delete 1, Delete 2]
     state_init = Inr st
        \<and> (\<forall>x. objs st x = None) \<and> mallocs (heap st) = 2 \<and> frees (heap st) = 2)"
proof -
  let ?cfg = "\<lparr>platform = GLIBC, no_exceptions = False\<rparr>"
  let ?cs1 = "[New 1 16 (Some (0x1000, 8)), New 2 9 (Some (0x2000, 0))]"
  let ?cs2 = "[New 1 16 (Some (0x1000, 8)), New 2 9 (Some (0x2000, 0)), MoveAssign 1 2, Delete 1, Delete 2]"
  let ?x = "\<lparr>m_begin = 0x1000, m_size = 24\<rparr>" and ?d = "\<lparr>m_begin = 0x2000, m_size = 16\<rparr>"
  have "\<exists>st. run ?cfg ?cs1 state_init = Inr st \<and> objs st 1 = Some ?x \<and> objs st 2 = Some ?d"
    by (simp add: eval_defs)
  then obtain st where r1: "run ?cfg ?cs1 state_init = Inr st"
    and o1: "objs st 1 = Some ?x" and o2: "objs st 2 = Some ?d"
    by blast
  have ne: "\<not> buffer_empty ?x" by (simp add: buffer_empty_def)
  have d: "(1 :: obj) \<noteq> 2" by simp
  from no_double_free_on_reassignment [OF r1] o1 o2 ne d
  have bal: "mallocs (heap st) = frees (heap st) + card (dom (allocs (heap st)))"
    and "\<exists>st'. buffer_move_assign 1 2 st = Inr st'
               \<and> allocs (heap st) (m_begin ?x) \<noteq> None
               \<and> allocs (heap st') = (allocs (heap st))(m_begin ?x := None)
               \<and> frees (heap st') = Suc (frees (heap st))
               \<and> mallocs (heap st') = mallocs (heap st)
               \<and> (m_begin ?d \<noteq> 0 \<longrightarrow> allocs (heap st') (m_begin ?d) \<noteq> None)"
    by blast+
  then obtain st' where ma: "buffer_move_assign 1 2 st = Inr st'"
    and a: "allocs (heap st') = (allocs (heap st))(0x1000 := None)"
    and f: "frees (heap st') = Suc (frees (heap st))"
    and m: "mallocs (heap st') = mallocs (heap st)"
    and l: "allocs (heap st') 0x2000 \<noteq> None"
    by auto
  have part1: "\<exists>st st'. run ?cfg ?cs1 state_init = Inr st
        \<and> objs st 1 = Some ?x \<and> objs st 2 = Some ?d \<and> \<not> buffer_empty ?x
        \<and> mallocs (heap st) = frees (heap st) + card (dom (allocs (heap st)))
        \<and> buffer_move_assign 1 2 st = Inr st'
        \<and> allocs (heap st') = (allocs (heap st))(0x1000 := None)
        \<and> frees (heap st') = Suc (frees (heap st))
        \<and> mallocs (heap st') = mallocs (heap st)
        \<and> allocs (heap st') 0x2000 \<noteq> None"
    using r1 o1 o2 ne bal ma a f m l by blast
  have "\<exists>st. run ?cfg ?cs2 state_init = Inr st \<and> (\<forall>x. objs st x = None) \<and> mallocs (heap st) = 2"
    by (simp add: eval_defs)
  then obtain st2 where r2: "run ?cfg ?cs2 state_init = Inr st2"
    and e: "\<forall>x. objs st2 x = None" and m2: "mallocs (heap st2) = 2"
    by blast
  from no_double_free_on_reassignment [OF r2] e have "mallocs (heap st2) = frees (heap st2)" by blast
  with m2 have "frees (heap st2) = 2" by simp
  with r2 e m2 have part2: "\<exists>st. run ?cfg ?cs2 state_init = Inr st
        \<and> (\<forall>x. objs st x = None) \<and> mallocs (heap st) = 2 \<and> frees (heap st) = 2"
    by blast
  show ?thesis using part1 part2 by (simp only: simp_thms)
qed

end
